theory Spec2Isabelle
  imports Main "HOL-Library.Word"
begin

section \<open>Data model of the scheduler\<close>

text \<open>
  The embedding follows \<^verbatim>\<open>src/scheduler/Scheduler.hpp\<close> and
  \<^verbatim>\<open>src/scheduler/Scheduler.cpp\<close>.

  \<^item> \<^verbatim>\<open>uint32_t\<close> is \<open>32 word\<close> and \<^verbatim>\<open>uint16_t\<close> is \<open>16 word\<close>: \<open>+\<close> and \<open>-\<close> wrap
    around, \<open>\<le>\<close> compares unsigned values. (The arithmetic of the source is carried out
    in \<^verbatim>\<open>uint32_t\<close>, that is, \<^verbatim>\<open>int\<close> is taken to be at most 32 bits wide.)
  \<^item> A function pointer \<^verbatim>\<open>void (*)()\<close> is \<open>nat option\<close>: \<open>None\<close> is \<^verbatim>\<open>NULL\<close>,
    \<open>Some f\<close> names the callable \<open>f\<close>.
  \<^item> A \<^verbatim>\<open>Task*\<close> is \<open>nat option\<close>: \<open>None\<close> is \<^verbatim>\<open>NULL\<close>, \<open>Some p\<close> is the address
    \<open>p\<close>; \<^verbatim>\<open>taskTable[i]\<close> is the cell at address \<open>p + i\<close> of the task memory, a
    partial map from addresses to \<^verbatim>\<open>Task\<close> objects owned by the caller.
  \<^item> Reading or writing a cell that holds no \<^verbatim>\<open>Task\<close>, or indexing a null pointer,
    is undefined behaviour in C++; the model returns a \<open>fault\<close> there.
  \<^item> A task body is opaque. Calling it is recorded in a log as \<open>Invoke i f\<close> (the
    position in the table and the callable); bodies are taken not to touch the
    scheduler or the task memory.
\<close>

type_synonym uint32 = "32 word"
type_synonym uint16 = "16 word"

record task =
  func :: "nat option"
  interval :: uint32
  last_called :: uint32

text \<open>The constructor \<^verbatim>\<open>Task(func, interval)\<close>; \<^verbatim>\<open>last_called_\<close> starts at 0.\<close>

definition Task :: "nat option \<Rightarrow> uint32 \<Rightarrow> task" where
  "Task f iv = \<lparr>func = f, interval = iv, last_called = 0\<rparr>"

record scheduler =
  sys_tick_ctr :: uint32
  systick_interval :: uint32
  num_tasks :: uint16
  task_table :: "nat option"

text \<open>The member initialisers of the class: counter 0, step 1, no tasks, null table.\<close>

definition new_scheduler :: scheduler where
  "new_scheduler =
     \<lparr>sys_tick_ctr = 0, systick_interval = 1, num_tasks = 0, task_table = None\<rparr>"

datatype event = Invoke nat nat

fun position :: "event \<Rightarrow> nat" where
  "position (Invoke i f) = i"

datatype fault = NullDereference | InvalidAccess

record world =
  sched :: scheduler
  mem :: "nat \<Rightarrow> task option"
  log :: "event list"

definition UINT32_MAX :: uint32 where
  "UINT32_MAX = 0xFFFFFFFF"

section \<open>Memory access and task invocation\<close>

text \<open>\<^verbatim>\<open>p[i]\<close> as an rvalue.\<close>

definition read_task :: "nat option \<Rightarrow> nat \<Rightarrow> world \<Rightarrow> fault + task" where
  "read_task tbl i w =
     (case tbl of
        None \<Rightarrow> Inl NullDereference
      | Some p \<Rightarrow> (case mem w (p + i) of None \<Rightarrow> Inl InvalidAccess | Some t \<Rightarrow> Inr t))"

text \<open>\<^verbatim>\<open>task_table_[i].last_called_ = v\<close> on a cell known to hold the task \<open>t\<close>.\<close>

definition write_last_called :: "nat \<Rightarrow> task \<Rightarrow> uint32 \<Rightarrow> world \<Rightarrow> world" where
  "write_last_called a t v w = w\<lparr>mem := (mem w)(a \<mapsto> t\<lparr>last_called := v\<rparr>)\<rparr>"

text \<open>\<^verbatim>\<open>(*(task_table_[i].func))()\<close>.\<close>

definition invoke :: "nat \<Rightarrow> nat \<Rightarrow> world \<Rightarrow> world" where
  "invoke i f w = w\<lparr>log := log w @ [Invoke i f]\<rparr>"

section \<open>Scheduler::init\<close>

text \<open>
  The first loop of \<^verbatim>\<open>init\<close> (lines 40-44): \<open>Inr False\<close> is the early
  \<^verbatim>\<open>return retval\<close> at the first null \<^verbatim>\<open>func\<close>, \<open>Inr True\<close> is falling out of the
  loop. The index is a \<^verbatim>\<open>uint16_t\<close> below \<^verbatim>\<open>num_tasks\<close>, so \<^verbatim>\<open>++i\<close> never wraps and
  a natural number models it exactly.
\<close>

function check_funcs :: "nat \<Rightarrow> nat \<Rightarrow> nat \<Rightarrow> world \<Rightarrow> fault + bool" where
  "check_funcs p n i w =
     (if i < n then
        (case read_task (Some p) i w of
           Inl e \<Rightarrow> Inl e
         | Inr t \<Rightarrow> (if func t = None then Inr False else check_funcs p n (i + 1) w))
      else Inr True)"
  by pat_completeness auto
termination
  by (relation "measure (\<lambda>(p, n, i, w). n - i)") auto

text \<open>The second loop of \<^verbatim>\<open>init\<close> (lines 54-57), through the member \<^verbatim>\<open>task_table_\<close>.\<close>

function reset_last_called :: "nat \<Rightarrow> nat \<Rightarrow> world \<Rightarrow> fault + world" where
  "reset_last_called n i w =
     (if i < n then
        (case read_task (task_table (sched w)) i w of
           Inl e \<Rightarrow> Inl e
         | Inr t \<Rightarrow>
             reset_last_called n (i + 1)
               (write_last_called (the (task_table (sched w)) + i) t
                  (UINT32_MAX - interval t + 1) w))
      else Inr w)"
  by pat_completeness auto
termination
  by (relation "measure (\<lambda>(n, i, w). n - i)") auto

definition init :: "nat option \<Rightarrow> uint16 \<Rightarrow> uint32 \<Rightarrow> world \<Rightarrow> fault + (bool \<times> world)" where
  "init taskTable n step w =
     (let w1 = w\<lparr>sched := (sched w)\<lparr>systick_interval := step\<rparr>\<rparr> in
      case taskTable of
        None \<Rightarrow> Inr (False, w1)
      | Some p \<Rightarrow>
          (case check_funcs p (unat n) 0 w1 of
             Inl e \<Rightarrow> Inl e
           | Inr False \<Rightarrow> Inr (False, w1)
           | Inr True \<Rightarrow>
               (let w2 = w1\<lparr>sched := (sched w1)\<lparr>task_table := Some p, num_tasks := n\<rparr>\<rparr> in
                case reset_last_called (unat n) 0 w2 of
                  Inl e \<Rightarrow> Inl e
                | Inr w3 \<Rightarrow> Inr (True, w3\<lparr>sched := (sched w3)\<lparr>sys_tick_ctr := 0\<rparr>\<rparr>))))"

text \<open>The two-argument overload.\<close>

definition init2 :: "nat option \<Rightarrow> uint16 \<Rightarrow> world \<Rightarrow> fault + (bool \<times> world)" where
  "init2 taskTable n w = init taskTable n 1 w"

section \<open>Tick management\<close>

definition tick :: "world \<Rightarrow> uint32 \<times> world" where
  "tick w =
     (let c = sys_tick_ctr (sched w) + systick_interval (sched w)
      in (c, w\<lparr>sched := (sched w)\<lparr>sys_tick_ctr := c\<rparr>\<rparr>))"

definition getTickCount :: "world \<Rightarrow> uint32" where
  "getTickCount w = sys_tick_ctr (sched w)"

definition setTickInterval :: "uint32 \<Rightarrow> world \<Rightarrow> world" where
  "setTickInterval step w = w\<lparr>sched := (sched w)\<lparr>systick_interval := step\<rparr>\<rparr>"

section \<open>Scheduler::run\<close>

text \<open>
  The loop of \<^verbatim>\<open>run\<close> from index \<open>i\<close> on. \<^verbatim>\<open>break\<close> returns the current world; the two
  dispatching branches and \<^verbatim>\<open>continue\<close> go on with \<open>i + 1\<close>.
\<close>

function run_loop :: "nat \<Rightarrow> world \<Rightarrow> fault + world" where
  "run_loop i w =
     (if i < unat (num_tasks (sched w)) then
        (let sysctr = sys_tick_ctr (sched w) in
         case read_task (task_table (sched w)) i w of
           Inl e \<Rightarrow> Inl e
         | Inr t \<Rightarrow>
             (case func t of
                None \<Rightarrow> Inr w
              | Some f \<Rightarrow>
                  if interval t = 0 then run_loop (i + 1) (invoke i f w)
                  else if interval t \<le> sysctr - last_called t then
                    run_loop (i + 1)
                      (write_last_called (the (task_table (sched w)) + i) t sysctr
                         (invoke i f w))
                  else run_loop (i + 1) w))
      else Inr w)"
  by pat_completeness auto
termination
  by (relation "measure (\<lambda>(i, w). unat (num_tasks (sched w)) - i)")
     (auto simp: invoke_def write_last_called_def)

definition run :: "world \<Rightarrow> fault + world" where
  "run w = run_loop 0 w"

section \<open>Sequences of calls on a scheduler\<close>

text \<open>
  The member functions a driver loop and a timer use once the scheduler is set up;
  \<^verbatim>\<open>tick\<close>'s and \<^verbatim>\<open>getTickCount\<close>'s return values are dropped.
\<close>

datatype call = Tick | GetTickCount | SetTickInterval uint32 | Run

fun do_call :: "call \<Rightarrow> world \<Rightarrow> fault + world" where
  "do_call Tick w = Inr (snd (tick w))"
| "do_call GetTickCount w = Inr w"
| "do_call (SetTickInterval s) w = Inr (setTickInterval s w)"
| "do_call Run w = run w"

fun do_calls :: "call list \<Rightarrow> world \<Rightarrow> fault + world" where
  "do_calls [] w = Inr w"
| "do_calls (c # cs) w = (case do_call c w of Inl e \<Rightarrow> Inl e | Inr w' \<Rightarrow> do_calls cs w')"

text \<open>
  The number of ticks that the calls \<open>cs\<close> add to the counter when the step is \<open>s\<close> at
  their start: every \<^verbatim>\<open>tick\<close> adds the step then in force.
\<close>

fun ticked :: "call list \<Rightarrow> uint32 \<Rightarrow> nat" where
  "ticked [] s = 0"
| "ticked (Tick # cs) s = unat s + ticked cs s"
| "ticked (SetTickInterval s' # cs) s = ticked cs s'"
| "ticked (GetTickCount # cs) s = ticked cs s"
| "ticked (Run # cs) s = ticked cs s"

section \<open>What a dispatch cycle is expected to do\<close>

text \<open>
  The description of one cycle in the words of the specification, against which the
  loop of the source is compared. A task is due at counter value \<open>c\<close> when it is
  continuous or at least \<open>interval\<close> ticks have elapsed, modulo \<open>2 ^ 32\<close>.
\<close>

definition due :: "uint32 \<Rightarrow> task \<Rightarrow> bool" where
  "due c t \<longleftrightarrow> interval t = 0 \<or> interval t \<le> c - last_called t"

text \<open>The descriptor after it has been evaluated at counter value \<open>c\<close>.\<close>

definition evaluated :: "uint32 \<Rightarrow> task \<Rightarrow> task" where
  "evaluated c t =
     (if interval t \<noteq> 0 \<and> interval t \<le> c - last_called t then t\<lparr>last_called := c\<rparr> else t)"

text \<open>The invocations of the descriptor at position \<open>j\<close> of the table at \<open>p\<close>.\<close>

definition call_of :: "uint32 \<Rightarrow> (nat \<Rightarrow> task option) \<Rightarrow> nat \<Rightarrow> nat \<Rightarrow> event list" where
  "call_of c h p j =
     (case h (p + j) of
        None \<Rightarrow> []
      | Some t \<Rightarrow> (case func t of None \<Rightarrow> [] | Some f \<Rightarrow> if due c t then [Invoke j f] else []))"

definition expected_calls ::
    "uint32 \<Rightarrow> (nat \<Rightarrow> task option) \<Rightarrow> nat \<Rightarrow> nat \<Rightarrow> nat \<Rightarrow> event list" where
  "expected_calls c h p i m = concat (map (call_of c h p) [i..<m])"

text \<open>The cell at \<open>a\<close> holds a descriptor with a non-null action.\<close>

definition callable_at :: "(nat \<Rightarrow> task option) \<Rightarrow> nat \<Rightarrow> bool" where
  "callable_at h a = (case h a of None \<Rightarrow> False | Some t \<Rightarrow> func t \<noteq> None)"

text \<open>The cell at \<open>a\<close> holds a descriptor with a null action.\<close>

definition null_at :: "(nat \<Rightarrow> task option) \<Rightarrow> nat \<Rightarrow> bool" where
  "null_at h a = (case h a of None \<Rightarrow> False | Some t \<Rightarrow> func t = None)"

text \<open>
  The scheduler is bound to the table at \<open>p\<close>, and the loop of \<^verbatim>\<open>run\<close> stops at
  position \<open>m\<close>: every descriptor before \<open>m\<close> has an action, and \<open>m\<close> is either the task
  count or the position of a descriptor with a null action.
\<close>

definition stops_at :: "world \<Rightarrow> nat \<Rightarrow> nat \<Rightarrow> bool" where
  "stops_at w p m \<longleftrightarrow>
     task_table (sched w) = Some p \<and> m \<le> unat (num_tasks (sched w)) \<and>
     list_all (\<lambda>j. callable_at (mem w) (p + j)) [0..<m] \<and>
     (m = unat (num_tasks (sched w)) \<or> null_at (mem w) (p + m))"

text \<open>Bound with every descriptor callable: the state a successful \<^verbatim>\<open>init\<close> leaves.\<close>

definition bound_to :: "world \<Rightarrow> nat \<Rightarrow> bool" where
  "bound_to w p \<longleftrightarrow> stops_at w p (unat (num_tasks (sched w)))"

text \<open>The state before any successful \<^verbatim>\<open>init\<close>: no table, no tasks.\<close>

definition uninitialized :: "world \<Rightarrow> bool" where
  "uninitialized w \<longleftrightarrow> task_table (sched w) = None \<and> num_tasks (sched w) = 0"

text \<open>The world after a cycle that stops at position \<open>m\<close>.\<close>

definition after_cycle :: "world \<Rightarrow> nat \<Rightarrow> nat \<Rightarrow> nat \<Rightarrow> world" where
  "after_cycle w p i m =
     w\<lparr>mem := (\<lambda>a. if p + i \<le> a \<and> a < p + m
                    then map_option (evaluated (sys_tick_ctr (sched w))) (mem w a)
                    else mem w a),
       log := log w @ expected_calls (sys_tick_ctr (sched w)) (mem w) p i m\<rparr>"

text \<open>The descriptor as a successful \<^verbatim>\<open>init\<close> leaves it.\<close>

definition armed :: "task \<Rightarrow> task" where
  "armed t = t\<lparr>last_called := UINT32_MAX - interval t + 1\<rparr>"

text \<open>The world after a successful \<^verbatim>\<open>init\<close> on the \<open>n\<close> descriptors at \<open>p\<close>.\<close>

definition after_init :: "world \<Rightarrow> nat \<Rightarrow> uint16 \<Rightarrow> uint32 \<Rightarrow> world" where
  "after_init w p n step =
     w\<lparr>sched := \<lparr>sys_tick_ctr = 0, systick_interval = step, num_tasks = n,
                  task_table = Some p\<rparr>,
       mem := (\<lambda>a. if p \<le> a \<and> a < p + unat n then map_option armed (mem w a) else mem w a)\<rparr>"

text \<open>The world after a failed \<^verbatim>\<open>init\<close>.\<close>

definition after_failed_init :: "world \<Rightarrow> uint32 \<Rightarrow> world" where
  "after_failed_init w step = w\<lparr>sched := (sched w)\<lparr>systick_interval := step\<rparr>\<rparr>"

text \<open>The invocations logged between two worlds, and those of position \<open>i\<close>.\<close>

definition new_calls :: "world \<Rightarrow> world \<Rightarrow> event list" where
  "new_calls w w' = drop (length (log w)) (log w')"

definition calls_at :: "nat \<Rightarrow> world \<Rightarrow> world \<Rightarrow> event list" where
  "calls_at i w w' = filter (\<lambda>e. position e = i) (new_calls w w')"

definition invoked :: "nat \<Rightarrow> world \<Rightarrow> world \<Rightarrow> bool" where
  "invoked i w w' \<longleftrightarrow> calls_at i w w' \<noteq> []"

text \<open>
  What the calls of a driver keep of a scheduler bound to \<open>m\<close> dispatchable
  descriptors at \<open>p\<close>: the binding, every action and interval, the log up to new
  invocations of positions below \<open>m\<close>, the descriptor of every position that was
  not invoked, and every continuous descriptor.
\<close>

definition evolved :: "nat \<Rightarrow> nat \<Rightarrow> world \<Rightarrow> world \<Rightarrow> bool" where
  "evolved p m w w' \<longleftrightarrow>
     task_table (sched w') = task_table (sched w) \<and>
     num_tasks (sched w') = num_tasks (sched w) \<and>
     (\<forall>a. map_option func (mem w' a) = map_option func (mem w a)) \<and>
     (\<forall>a. map_option interval (mem w' a) = map_option interval (mem w a)) \<and>
     (\<exists>evs. log w' = log w @ evs \<and> (\<forall>e\<in>set evs. position e < m)) \<and>
     (\<forall>i. \<not> invoked i w w' \<longrightarrow> mem w' (p + i) = mem w (p + i)) \<and>
     (\<forall>a t. mem w a = Some t \<longrightarrow> interval t = 0 \<longrightarrow> mem w' a = Some t) \<and>
     (\<forall>a. a < p \<or> p + m \<le> a \<longrightarrow> mem w' a = mem w a)"

section \<open>Example tables\<close>

text \<open>
  Task memory with two tables: at address 100 a periodic task of interval 10 and a
  continuous task; at address 200 a table whose second descriptor has a null action.
\<close>

definition demo_mem :: "nat \<Rightarrow> task option" where
  "demo_mem =
     Map.empty(100 \<mapsto> Task (Some 1) 10, 101 \<mapsto> Task (Some 2) 0,
               200 \<mapsto> Task (Some 4) 10, 201 \<mapsto> Task None 5, 202 \<mapsto> Task (Some 6) 0)"

text \<open>A freshly constructed scheduler next to that memory.\<close>

definition demo_world :: world where
  "demo_world = \<lparr>sched = new_scheduler, mem = demo_mem, log = []\<rparr>"

text \<open>
  A scheduler bound to the three descriptors at 200, at counter value 10, as it is
  when the caller has cleared the second action after a successful \<^verbatim>\<open>init\<close>.
\<close>

definition demo_truncated :: world where
  "demo_truncated =
     \<lparr>sched = \<lparr>sys_tick_ctr = 10, systick_interval = 1, num_tasks = 3,
                task_table = Some 200\<rparr>,
      mem = demo_mem, log = []\<rparr>"

section \<open>The loops of the source, characterised\<close>

declare run_loop.simps [simp del] check_funcs.simps [simp del]
  reset_last_called.simps [simp del]

lemma call_of_cong:
  "h (p + j) = h' (p + j) \<Longrightarrow> call_of c h p j = call_of c h' p j"
  by (simp add: call_of_def)

lemma expected_calls_cong:
  "(\<And>j. i \<le> j \<Longrightarrow> j < m \<Longrightarrow> h (p + j) = h' (p + j)) \<Longrightarrow>
   expected_calls c h p i m = expected_calls c h' p i m"
  unfolding expected_calls_def
  by (rule arg_cong [where f = concat], rule map_cong) (auto intro: call_of_cong)

lemma expected_calls_step:
  "i < m \<Longrightarrow> expected_calls c h p i m = call_of c h p i @ expected_calls c h p (Suc i) m"
  by (simp add: expected_calls_def upt_conv_Cons)

lemma expected_calls_empty [simp]: "expected_calls c h p m m = []"
  by (simp add: expected_calls_def)

lemma after_cycle_empty [simp]: "after_cycle w p m m = w"
proof -
  have "(\<lambda>a. if p + m \<le> a \<and> a < p + m
             then map_option (evaluated (sys_tick_ctr (sched w))) (mem w a)
             else mem w a) = mem w"
    by (rule ext) auto
  then show ?thesis by (simp add: after_cycle_def)
qed

text \<open>
  The loop of \<^verbatim>\<open>run\<close>, started at \<open>i\<close> on callable descriptors up to \<open>m\<close>, where \<open>m\<close>
  is the task count or holds a null action, returns and does what the specification
  describes for the positions from \<open>i\<close> to \<open>m\<close>.
\<close>

lemma run_loop_char:
  assumes "task_table (sched w) = Some p"
    and "i \<le> m" and "m \<le> unat (num_tasks (sched w))"
    and "\<And>j. i \<le> j \<Longrightarrow> j < m \<Longrightarrow> callable_at (mem w) (p + j)"
    and "m = unat (num_tasks (sched w)) \<or> null_at (mem w) (p + m)"
  shows "run_loop i w = Inr (after_cycle w p i m)"
  using assms
proof (induction "m - i" arbitrary: i w)
  case 0
  then have im: "i = m" by simp
  from 0 show ?case unfolding im
    by (subst run_loop.simps [of m w]) (auto simp: read_task_def null_at_def split: option.splits)
next
  case (Suc k)
  then have im: "i < m" by simp
  with Suc.prems have "callable_at (mem w) (p + i)" by simp
  then obtain t f where t: "mem w (p + i) = Some t" and f: "func t = Some f"
    by (auto simp: callable_at_def split: option.splits)
  let ?c = "sys_tick_ctr (sched w)"
  define w1 where "w1 = (if interval t = 0 then invoke i f w
             else if interval t \<le> ?c - last_called t
             then write_last_called (p + i) t ?c (invoke i f w) else w)"
  have step: "run_loop i w = run_loop (Suc i) w1"
    using im Suc.prems(1,3) t f
    by (subst run_loop.simps [of i w]) (simp add: read_task_def w1_def)
  have sched1: "sched w1 = sched w"
    by (simp add: invoke_def write_last_called_def w1_def)
  have mem1: "mem w1 = (mem w)(p + i \<mapsto> evaluated ?c t)"
    using t by (auto simp: invoke_def write_last_called_def evaluated_def w1_def)
  have log1: "log w1 = log w @ call_of ?c (mem w) p i"
    using t f by (simp add: invoke_def write_last_called_def call_of_def due_def w1_def)
  have IH: "run_loop (Suc i) w1 = Inr (after_cycle w1 p (Suc i) m)"
  proof (rule Suc.hyps(1))
    show "k = m - Suc i" using Suc.hyps(2) by simp
    show "task_table (sched w1) = Some p" using Suc.prems(1) sched1 by simp
    show "Suc i \<le> m" using im by simp
    show "m \<le> unat (num_tasks (sched w1))" using Suc.prems(3) sched1 by simp
    show "callable_at (mem w1) (p + j)" if "Suc i \<le> j" "j < m" for j
      using that Suc.prems(4) [of j] by (simp add: mem1 callable_at_def)
    show "m = unat (num_tasks (sched w1)) \<or> null_at (mem w1) (p + m)"
      using Suc.prems(5) im by (simp add: sched1 mem1 null_at_def)
  qed
  have ec: "expected_calls ?c (mem w1) p (Suc i) m = expected_calls ?c (mem w) p (Suc i) m"
    by (rule expected_calls_cong) (simp add: mem1)
  have "after_cycle w1 p (Suc i) m = after_cycle w p i m"
  proof (rule world.equality)
    show "sched (after_cycle w1 p (Suc i) m) = sched (after_cycle w p i m)"
      by (simp add: after_cycle_def sched1)
    show "log (after_cycle w1 p (Suc i) m) = log (after_cycle w p i m)"
      by (simp add: after_cycle_def sched1 ec log1 expected_calls_step [OF im])
    show "mem (after_cycle w1 p (Suc i) m) = mem (after_cycle w p i m)"
      using t im by (auto simp: after_cycle_def sched1 mem1 fun_eq_iff)
    show "world.more (after_cycle w1 p (Suc i) m) = world.more (after_cycle w p i m)"
      by simp
  qed
  with step IH show ?case by simp
qed

lemma check_funcs_callable:
  "(\<And>j. i \<le> j \<Longrightarrow> j < n \<Longrightarrow> callable_at (mem w) (p + j)) \<Longrightarrow>
   check_funcs p n i w = Inr True"
proof (induction "n - i" arbitrary: i)
  case 0
  then show ?case by (subst check_funcs.simps) simp
next
  case (Suc k)
  then have "i < n" by simp
  with Suc.prems have "callable_at (mem w) (p + i)" by simp
  moreover have "check_funcs p n (Suc i) w = Inr True"
    using Suc by simp
  ultimately show ?case using \<open>i < n\<close>
    by (subst check_funcs.simps)
       (auto simp: read_task_def callable_at_def split: option.splits)
qed

lemma check_funcs_null:
  "i \<le> m \<Longrightarrow> m < n \<Longrightarrow> (\<And>j. i \<le> j \<Longrightarrow> j < m \<Longrightarrow> callable_at (mem w) (p + j)) \<Longrightarrow>
   null_at (mem w) (p + m) \<Longrightarrow> check_funcs p n i w = Inr False"
proof (induction "m - i" arbitrary: i)
  case 0
  then have "i = m" by simp
  with 0 show ?case
    by (subst check_funcs.simps) (auto simp: read_task_def null_at_def split: option.splits)
next
  case (Suc k)
  then have "i < m" by simp
  with Suc.prems have "callable_at (mem w) (p + i)" by simp
  moreover have "check_funcs p n (Suc i) w = Inr False"
    using Suc \<open>i < m\<close> by simp
  ultimately show ?case using \<open>i < m\<close> \<open>m < n\<close>
    by (subst check_funcs.simps)
       (auto simp: read_task_def callable_at_def split: option.splits)
qed

lemma check_funcs_TrueD:
  "check_funcs p n i w = Inr True \<Longrightarrow> i \<le> j \<Longrightarrow> j < n \<Longrightarrow> callable_at (mem w) (p + j)"
proof (induction p n i w rule: check_funcs.induct)
  case (1 p n i w)
  from "1.prems" have "i < n" by simp
  from "1.prems"(1) \<open>i < n\<close> obtain t where t: "mem w (p + i) = Some t" "func t \<noteq> None"
    and rest: "check_funcs p n (i + 1) w = Inr True"
    by (subst (asm) check_funcs.simps)
       (auto simp: read_task_def split: option.splits if_splits)
  show ?case
  proof (cases "j = i")
    case True
    with t show ?thesis by (simp add: callable_at_def)
  next
    case False
    with "1.prems" have "i + 1 \<le> j" by simp
    with "1.IH" [of t] \<open>i < n\<close> t rest "1.prems"(3) show ?thesis
      by (simp add: read_task_def)
  qed
qed

lemma check_funcs_FalseD:
  "check_funcs p n i w = Inr False \<Longrightarrow>
   \<exists>m. i \<le> m \<and> m < n \<and> null_at (mem w) (p + m) \<and>
       (\<forall>j. i \<le> j \<and> j < m \<longrightarrow> callable_at (mem w) (p + j))"
proof (induction p n i w rule: check_funcs.induct)
  case (1 p n i w)
  from "1.prems" have "i < n"
    by (subst (asm) check_funcs.simps) (auto split: if_splits)
  with "1.prems" obtain t where t: "mem w (p + i) = Some t"
    and rest: "func t = None \<or> check_funcs p n (i + 1) w = Inr False"
    by (subst (asm) check_funcs.simps)
       (auto simp: read_task_def split: option.splits if_splits)
  show ?case
  proof (cases "func t")
    case None
    with t \<open>i < n\<close> show ?thesis
      by (intro exI [of _ i]) (auto simp: null_at_def)
  next
    case (Some f)
    with rest have "check_funcs p n (i + 1) w = Inr False" by simp
    with "1.IH" [of t] \<open>i < n\<close> t Some obtain m where m: "i + 1 \<le> m" "m < n"
      "null_at (mem w) (p + m)" "\<forall>j. i + 1 \<le> j \<and> j < m \<longrightarrow> callable_at (mem w) (p + j)"
      by (auto simp: read_task_def)
    have "callable_at (mem w) (p + j)" if "i \<le> j" "j < m" for j
    proof (cases "j = i")
      case True
      with t Some show ?thesis by (simp add: callable_at_def)
    next
      case False
      with that m(4) show ?thesis by simp
    qed
    with m show ?thesis by (intro exI [of _ m]) simp
  qed
qed

lemma reset_last_called_char:
  assumes "task_table (sched w) = Some p"
    and "\<And>j. i \<le> j \<Longrightarrow> j < n \<Longrightarrow> mem w (p + j) \<noteq> None"
  shows "reset_last_called n i w =
     Inr (w\<lparr>mem := (\<lambda>a. if p + i \<le> a \<and> a < p + n then map_option armed (mem w a)
                          else mem w a)\<rparr>)"
  using assms
proof (induction "n - i" arbitrary: i w)
  case 0
  then have "(\<lambda>a. if p + i \<le> a \<and> a < p + n then map_option armed (mem w a) else mem w a) = mem w"
    by (intro ext) auto
  with 0 show ?case by (subst reset_last_called.simps) simp
next
  case (Suc k)
  then have "i < n" by simp
  with Suc.prems obtain t where t: "mem w (p + i) = Some t" by fastforce
  define w1 where "w1 = write_last_called (p + i) t (UINT32_MAX - interval t + 1) w"
  have step: "reset_last_called n i w = reset_last_called n (Suc i) w1"
    using \<open>i < n\<close> t Suc.prems(1)
    by (subst reset_last_called.simps [of n i w]) (simp add: read_task_def w1_def)
  have sched1: "sched w1 = sched w" and log1: "log w1 = log w"
    by (simp_all add: w1_def write_last_called_def)
  have mem1: "mem w1 = (mem w)(p + i \<mapsto> armed t)"
    by (simp add: w1_def write_last_called_def armed_def)
  have "reset_last_called n (Suc i) w1 =
     Inr (w1\<lparr>mem := (\<lambda>a. if p + Suc i \<le> a \<and> a < p + n then map_option armed (mem w1 a)
                          else mem w1 a)\<rparr>)"
  proof (rule Suc.hyps(1))
    show "k = n - Suc i" using Suc.hyps(2) by simp
    show "task_table (sched w1) = Some p" using Suc.prems(1) sched1 by simp
    show "mem w1 (p + j) \<noteq> None" if "Suc i \<le> j" "j < n" for j
      using that Suc.prems(2) [of j] by (simp add: mem1)
  qed
  also have "w1\<lparr>mem := (\<lambda>a. if p + Suc i \<le> a \<and> a < p + n then map_option armed (mem w1 a)
                          else mem w1 a)\<rparr> =
     w\<lparr>mem := (\<lambda>a. if p + i \<le> a \<and> a < p + n then map_option armed (mem w a)
                          else mem w a)\<rparr>"
  proof (rule world.equality)
    show "mem (w1\<lparr>mem := (\<lambda>a. if p + Suc i \<le> a \<and> a < p + n then map_option armed (mem w1 a)
                          else mem w1 a)\<rparr>) =
          mem (w\<lparr>mem := (\<lambda>a. if p + i \<le> a \<and> a < p + n then map_option armed (mem w a)
                          else mem w a)\<rparr>)"
      using t \<open>i < n\<close> by (auto simp: mem1 fun_eq_iff)
  qed (simp_all add: sched1 log1 w1_def write_last_called_def)
  finally show ?case using step by simp
qed

lemma init_null: "init None n step w = Inr (False, after_failed_init w step)"
  by (simp add: init_def after_failed_init_def)

lemma init_success:
  assumes "\<And>j. j < unat n \<Longrightarrow> callable_at (mem w) (p + j)"
  shows "init (Some p) n step w = Inr (True, after_init w p n step)"
proof -
  let ?w1 = "w\<lparr>sched := (sched w)\<lparr>systick_interval := step\<rparr>\<rparr>"
  let ?w2 = "?w1\<lparr>sched := (sched ?w1)\<lparr>task_table := Some p, num_tasks := n\<rparr>\<rparr>"
  have c: "check_funcs p (unat n) 0 ?w1 = Inr True"
    using assms by (intro check_funcs_callable) simp
  have "reset_last_called (unat n) 0 ?w2 =
     Inr (?w2\<lparr>mem := (\<lambda>a. if p + 0 \<le> a \<and> a < p + unat n then map_option armed (mem ?w2 a)
                          else mem ?w2 a)\<rparr>)"
  proof (rule reset_last_called_char)
    show "task_table (sched ?w2) = Some p" by simp
    show "mem ?w2 (p + j) \<noteq> None" if "0 \<le> j" "j < unat n" for j
      using assms [OF that(2)] by (auto simp: callable_at_def split: option.splits)
  qed
  with c show ?thesis
    by (auto simp: init_def after_init_def Let_def intro!: world.equality scheduler.equality)
qed

lemma init_failure:
  assumes "m < unat n" and "null_at (mem w) (p + m)"
    and "\<And>j. j < m \<Longrightarrow> callable_at (mem w) (p + j)"
  shows "init (Some p) n step w = Inr (False, after_failed_init w step)"
proof -
  let ?w1 = "w\<lparr>sched := (sched w)\<lparr>systick_interval := step\<rparr>\<rparr>"
  have "check_funcs p (unat n) 0 ?w1 = Inr False"
    using assms by (intro check_funcs_null [where m = m]) simp_all
  then show ?thesis by (simp add: init_def after_failed_init_def)
qed

lemma init_cases:
  assumes "init tbl n step w = Inr (b, w')"
  shows "if b then \<exists>p. tbl = Some p \<and> (\<forall>j<unat n. callable_at (mem w) (p + j)) \<and>
                       w' = after_init w p n step
         else w' = after_failed_init w step \<and>
              (tbl = None \<or> (\<exists>p m. tbl = Some p \<and> m < unat n \<and> null_at (mem w) (p + m) \<and>
                  (\<forall>j<m. callable_at (mem w) (p + j))))"
proof (cases tbl)
  case None
  with assms show ?thesis by (auto simp: init_null)
next
  case (Some p)
  let ?w1 = "w\<lparr>sched := (sched w)\<lparr>systick_interval := step\<rparr>\<rparr>"
  from assms Some obtain c where c: "check_funcs p (unat n) 0 ?w1 = Inr c"
    by (auto simp: init_def Let_def split: sum.splits)
  show ?thesis
  proof (cases c)
    case True
    with c have call: "\<And>j. j < unat n \<Longrightarrow> callable_at (mem w) (p + j)"
      using check_funcs_TrueD [of p "unat n" 0 ?w1] by simp
    from init_success [OF this, of n step] assms Some show ?thesis
      using call by auto
  next
    case False
    with c obtain m where m: "m < unat n" "null_at (mem w) (p + m)"
      "\<forall>j. j < m \<longrightarrow> callable_at (mem w) (p + j)"
      using check_funcs_FalseD [of p "unat n" 0 ?w1] by auto
    from init_failure [OF m(1,2), of step] m(3) assms Some have "b = False" "w' = after_failed_init w step"
      by auto
    with m Some show ?thesis by auto
  qed
qed

section \<open>One dispatch cycle\<close>

lemma stops_atD:
  "stops_at w p m \<Longrightarrow> j < m \<Longrightarrow> callable_at (mem w) (p + j)"
  by (simp add: stops_at_def list_all_iff)

lemma run_stops_at:
  assumes "stops_at w p m"
  shows "run w = Inr (after_cycle w p 0 m)"
  unfolding run_def
proof (rule run_loop_char)
  show "callable_at (mem w) (p + j)" if "j < m" for j
    using assms that by (rule stops_atD)
qed (use assms in \<open>simp_all add: stops_at_def\<close>)

lemma sched_after_cycle [simp]: "sched (after_cycle w p i m) = sched w"
  by (simp add: after_cycle_def)

lemma log_after_cycle:
  "log (after_cycle w p i m) = log w @ expected_calls (sys_tick_ctr (sched w)) (mem w) p i m"
  by (simp add: after_cycle_def)

lemma new_calls_after_cycle [simp]:
  "new_calls w (after_cycle w p i m) = expected_calls (sys_tick_ctr (sched w)) (mem w) p i m"
  by (simp add: new_calls_def log_after_cycle)

lemma mem_after_cycle:
  "mem (after_cycle w p 0 m) a =
     (if p \<le> a \<and> a < p + m then map_option (evaluated (sys_tick_ctr (sched w))) (mem w a)
      else mem w a)"
  by (simp add: after_cycle_def)

lemma func_evaluated [simp]: "func (evaluated c t) = func t"
  by (simp add: evaluated_def)

lemma interval_evaluated [simp]: "interval (evaluated c t) = interval t"
  by (simp add: evaluated_def)

lemma func_after_cycle:
  "map_option func (mem (after_cycle w p 0 m) a) = map_option func (mem w a)"
  by (simp add: mem_after_cycle option.map_comp comp_def)

lemma interval_after_cycle:
  "map_option interval (mem (after_cycle w p 0 m) a) = map_option interval (mem w a)"
  by (simp add: mem_after_cycle option.map_comp comp_def)

lemma callable_at_func:
  "map_option func (h' a) = map_option func (h a) \<Longrightarrow> callable_at h' a = callable_at h a"
  by (cases "h a"; cases "h' a") (auto simp: callable_at_def)

lemma null_at_func:
  "map_option func (h' a) = map_option func (h a) \<Longrightarrow> null_at h' a = null_at h a"
  by (cases "h a"; cases "h' a") (auto simp: null_at_def)

lemma stops_at_func:
  assumes "task_table (sched w') = task_table (sched w)"
    and "num_tasks (sched w') = num_tasks (sched w)"
    and "\<And>a. map_option func (mem w' a) = map_option func (mem w a)"
  shows "stops_at w' p m = stops_at w p m"
proof -
  have "callable_at (mem w') a = callable_at (mem w) a" for a
    by (rule callable_at_func) (rule assms(3))
  moreover have "null_at (mem w') a = null_at (mem w) a" for a
    by (rule null_at_func) (rule assms(3))
  ultimately show ?thesis using assms(1,2) by (simp add: stops_at_def)
qed

lemma stops_at_after_cycle [simp]:
  "stops_at (after_cycle w p 0 m') p m = stops_at w p m"
  by (rule stops_at_func) (simp_all add: func_after_cycle)

lemma position_call_of:
  "e \<in> set (call_of c h p j) \<Longrightarrow> position e = j"
  by (auto simp: call_of_def split: option.splits if_splits)

lemma expected_calls_Suc:
  "expected_calls c h p 0 (Suc m) = expected_calls c h p 0 m @ call_of c h p m"
  by (simp add: expected_calls_def)

lemma filter_call_of:
  "filter (\<lambda>e. position e = i) (call_of c h p j) = (if i = j then call_of c h p j else [])"
  by (auto simp: call_of_def split: option.splits)

lemma filter_expected_calls:
  "filter (\<lambda>e. position e = i) (expected_calls c h p 0 m) =
     (if i < m then call_of c h p i else [])"
  by (induction m) (auto simp: expected_calls_Suc filter_call_of)

lemma position_expected_calls:
  "e \<in> set (expected_calls c h p 0 m) \<Longrightarrow> position e < m"
  by (auto simp: expected_calls_def dest: position_call_of)

lemma calls_at_after_cycle:
  "calls_at i w (after_cycle w p 0 m) =
     (if i < m then call_of (sys_tick_ctr (sched w)) (mem w) p i else [])"
  by (simp add: calls_at_def filter_expected_calls)

lemma call_of_task:
  "h (p + i) = Some t \<Longrightarrow> func t = Some f \<Longrightarrow>
   call_of c h p i = (if due c t then [Invoke i f] else [])"
  by (simp add: call_of_def)

section \<open>Sequences of calls\<close>

lemma evolved_refl: "evolved p m w w"
  by (simp add: evolved_def)

lemma invoked_append:
  assumes "log w1 = log w @ evs1" and "log w2 = log w1 @ evs2"
  shows "invoked i w w2 \<longleftrightarrow> invoked i w w1 \<or> invoked i w1 w2"
  using assms by (auto simp: invoked_def calls_at_def new_calls_def)

lemma evolved_trans:
  assumes "evolved p m w w1" and "evolved p m w1 w2"
  shows "evolved p m w w2"
proof -
  from assms obtain evs1 evs2 where
    l1: "log w1 = log w @ evs1" "\<forall>e\<in>set evs1. position e < m" and
    l2: "log w2 = log w1 @ evs2" "\<forall>e\<in>set evs2. position e < m"
    by (auto simp: evolved_def)
  have "log w2 = log w @ (evs1 @ evs2) \<and> (\<forall>e\<in>set (evs1 @ evs2). position e < m)"
    using l1 l2 by auto
  then have lg: "\<exists>evs. log w2 = log w @ evs \<and> (\<forall>e\<in>set evs. position e < m)" ..
  have inv: "mem w2 (p + i) = mem w (p + i)" if "\<not> invoked i w w2" for i
  proof -
    from that invoked_append [OF l1(1) l2(1)]
    have "\<not> invoked i w w1" "\<not> invoked i w1 w2" by simp_all
    with assms show ?thesis by (simp add: evolved_def)
  qed
  from assms lg inv show ?thesis
    by (simp add: evolved_def)
qed

lemma evolved_tick: "evolved p m w (snd (tick w))"
  by (simp add: evolved_def tick_def Let_def)

lemma evolved_setTickInterval: "evolved p m w (setTickInterval s w)"
  by (simp add: evolved_def setTickInterval_def)

lemma evaluated_not_due: "\<not> due c t \<Longrightarrow> evaluated c t = t"
  by (simp add: due_def evaluated_def)

lemma evolved_after_cycle:
  assumes "stops_at w p m"
  shows "evolved p m w (after_cycle w p 0 m)"
proof -
  let ?c = "sys_tick_ctr (sched w)"
  have "mem (after_cycle w p 0 m) (p + i) = mem w (p + i)"
    if "\<not> invoked i w (after_cycle w p 0 m)" for i
  proof (cases "i < m")
    case True
    with assms have "callable_at (mem w) (p + i)" by (simp add: stops_atD)
    then obtain t f where t: "mem w (p + i) = Some t" "func t = Some f"
      by (auto simp: callable_at_def split: option.splits)
    with that True have "\<not> due ?c t"
      by (auto simp: invoked_def calls_at_after_cycle call_of_task split: if_splits)
    with t True show ?thesis
      by (simp add: mem_after_cycle evaluated_not_due)
  next
    case False
    then show ?thesis by (simp add: mem_after_cycle)
  qed
  note inv = this
  have f: "\<forall>a. map_option func (mem (after_cycle w p 0 m) a) = map_option func (mem w a)"
    by (simp add: func_after_cycle)
  have iv: "\<forall>a. map_option interval (mem (after_cycle w p 0 m) a) = map_option interval (mem w a)"
    by (simp add: interval_after_cycle)
  have lg: "\<exists>evs. log (after_cycle w p 0 m) = log w @ evs \<and> (\<forall>e\<in>set evs. position e < m)"
    by (auto simp: log_after_cycle position_expected_calls)
  have out: "\<forall>a. a < p \<or> p + m \<le> a \<longrightarrow> mem (after_cycle w p 0 m) a = mem w a"
    by (auto simp: mem_after_cycle)
  have cont: "\<forall>a t. mem w a = Some t \<longrightarrow> interval t = 0 \<longrightarrow>
      mem (after_cycle w p 0 m) a = Some t"
    by (simp add: mem_after_cycle evaluated_def)
  show ?thesis
    unfolding evolved_def sched_after_cycle using f iv lg out inv cont by blast
qed

lemma stops_at_evolved:
  "evolved p m w w' \<Longrightarrow> stops_at w' p m' = stops_at w p m'"
  by (rule stops_at_func) (simp_all add: evolved_def)

lemma do_call_evolved:
  assumes "stops_at w p m"
  shows "\<exists>w'. do_call c w = Inr w' \<and> evolved p m w w'"
proof (cases c)
  case Run
  with assms show ?thesis by (simp add: run_stops_at evolved_after_cycle)
qed (simp_all add: evolved_tick evolved_setTickInterval evolved_refl)

lemma do_calls_evolved:
  assumes "stops_at w p m"
  shows "\<exists>w'. do_calls cs w = Inr w' \<and> evolved p m w w' \<and> stops_at w' p m"
  using assms
proof (induction cs arbitrary: w)
  case Nil
  then show ?case by (simp add: evolved_refl)
next
  case (Cons c cs)
  from do_call_evolved [OF Cons.prems, of c] obtain w1
    where w1: "do_call c w = Inr w1" "evolved p m w w1" by blast
  with Cons.prems have "stops_at w1 p m" by (simp add: stops_at_evolved)
  from Cons.IH [OF this] obtain w' where
    "do_calls cs w1 = Inr w'" "evolved p m w1 w'" "stops_at w' p m" by blast
  with w1 show ?case by (auto intro: evolved_trans)
qed

text \<open>A cycle of a scheduler whose loop stops at \<open>m\<close>, seen from position \<open>i\<close>.\<close>

lemma run_position:
  assumes "stops_at w p m" and "i < m" and "mem w (p + i) = Some t"
  shows "\<exists>f w'. func t = Some f \<and> run w = Inr w' \<and>
           calls_at i w w' = (if due (sys_tick_ctr (sched w)) t then [Invoke i f] else []) \<and>
           mem w' (p + i) = Some (evaluated (sys_tick_ctr (sched w)) t) \<and>
           stops_at w' p m \<and> sched w' = sched w"
proof -
  from assms have "callable_at (mem w) (p + i)" by (simp add: stops_atD)
  with assms(3) obtain f where f: "func t = Some f"
    by (auto simp: callable_at_def)
  with assms show ?thesis
    by (simp add: run_stops_at calls_at_after_cycle call_of_task mem_after_cycle)
qed

section \<open>Failed initialisation\<close>

lemma after_failed_init_eq:
  "after_failed_init w step = w\<lparr>sched := (sched w)\<lparr>systick_interval := step\<rparr>\<rparr>"
  by (simp add: after_failed_init_def)

lemma demo_null_table:
  "null_at demo_mem (200 + 1)" "\<And>j. j < 1 \<Longrightarrow> callable_at demo_mem (200 + j)"
  by (simp_all add: demo_mem_def null_at_def callable_at_def Task_def)

text \<open>
  C1, as the code has it. \<^verbatim>\<open>init\<close> fails exactly when the table pointer is null or
  a descriptor among the first \<open>n\<close> has a null action (the descriptors before it being
  readable), and then no descriptor, no log entry, and neither the bound table, the
  task count nor the tick counter changes; the tick step is the one field that does
  change: it is assigned on entry, before the validation, and holds the \<open>step\<close>
  argument afterwards.
\<close>

theorem init_failure_keeps_all_but_step:
  "init tbl n step w = Inr (False, w') \<longleftrightarrow>
     w' = w\<lparr>sched := (sched w)\<lparr>systick_interval := step\<rparr>\<rparr> \<and>
     (tbl = None \<or>
      (\<exists>p m. tbl = Some p \<and> m < unat n \<and> null_at (mem w) (p + m) \<and>
             (\<forall>j<m. callable_at (mem w) (p + j))))"
proof
  assume "init tbl n step w = Inr (False, w')"
  from init_cases [OF this] show
    "w' = w\<lparr>sched := (sched w)\<lparr>systick_interval := step\<rparr>\<rparr> \<and>
     (tbl = None \<or>
      (\<exists>p m. tbl = Some p \<and> m < unat n \<and> null_at (mem w) (p + m) \<and>
             (\<forall>j<m. callable_at (mem w) (p + j))))"
    by (simp add: after_failed_init_eq)
next
  assume "w' = w\<lparr>sched := (sched w)\<lparr>systick_interval := step\<rparr>\<rparr> \<and>
     (tbl = None \<or>
      (\<exists>p m. tbl = Some p \<and> m < unat n \<and> null_at (mem w) (p + m) \<and>
             (\<forall>j<m. callable_at (mem w) (p + j))))"
  then show "init tbl n step w = Inr (False, w')"
    by (auto simp: init_null init_failure after_failed_init_eq)
qed

theorem init_failure_keeps_all_but_step_witness:
  "init (Some 200) 3 5 demo_world =
     Inr (False, demo_world\<lparr>sched := (sched demo_world)\<lparr>systick_interval := 5\<rparr>\<rparr>) \<and>
   mem (demo_world\<lparr>sched := (sched demo_world)\<lparr>systick_interval := 5\<rparr>\<rparr>) = demo_mem"
proof -
  have "(1::nat) < unat (3::uint16)" by simp
  moreover have "null_at (mem demo_world) (200 + 1)"
    "\<forall>j<1. callable_at (mem demo_world) (200 + j)"
    using demo_null_table by (simp_all add: demo_world_def)
  ultimately have "init (Some 200) 3 5 demo_world =
     Inr (False, demo_world\<lparr>sched := (sched demo_world)\<lparr>systick_interval := 5\<rparr>\<rparr>)"
    using init_failure_keeps_all_but_step
      [of "Some 200" 3 5 demo_world
          "demo_world\<lparr>sched := (sched demo_world)\<lparr>systick_interval := 5\<rparr>\<rparr>"]
    by blast
  then show ?thesis by (simp add: demo_world_def)
qed

theorem init_failure_changes_step:
  "init (Some 200) 3 5 demo_world =
     Inr (False, demo_world\<lparr>sched := (sched demo_world)\<lparr>systick_interval := 5\<rparr>\<rparr>) \<and>
   systick_interval (sched demo_world) = 1 \<and>
   systick_interval (sched (demo_world\<lparr>sched := (sched demo_world)\<lparr>systick_interval := 5\<rparr>\<rparr>)) = 5"
proof -
  have "init (Some 200) 3 5 demo_world = Inr (False, after_failed_init demo_world 5)"
  proof (rule init_failure [where m = 1])
    show "1 < unat (3::uint16)" by simp
    show "null_at (mem demo_world) (200 + 1)"
      using demo_null_table(1) by (simp add: demo_world_def)
    show "callable_at (mem demo_world) (200 + j)" if "j < 1" for j
      using demo_null_table(2) [OF that] by (simp add: demo_world_def)
  qed
  then show ?thesis
    by (simp add: after_failed_init_eq demo_world_def new_scheduler_def)
qed

section \<open>The uninitialised scheduler\<close>

lemma run_uninitialized: "uninitialized w \<Longrightarrow> run w = Inr w"
  by (simp add: uninitialized_def run_def run_loop.simps [of 0 w])

lemma do_call_uninitialized:
  "uninitialized w \<Longrightarrow>
   \<exists>w'. do_call c w = Inr w' \<and> uninitialized w' \<and> mem w' = mem w \<and> log w' = log w"
  by (cases c)
     (simp_all add: run_uninitialized, simp_all add: uninitialized_def tick_def Let_def
        setTickInterval_def)

lemma do_calls_uninitialized:
  "uninitialized w \<Longrightarrow>
   \<exists>w'. do_calls cs w = Inr w' \<and> uninitialized w' \<and> mem w' = mem w \<and> log w' = log w"
proof (induction cs arbitrary: w)
  case Nil
  then show ?case by simp
next
  case (Cons c cs)
  from do_call_uninitialized [OF Cons.prems, of c] obtain w1 where
    w1: "do_call c w = Inr w1" "uninitialized w1" "mem w1 = mem w" "log w1 = log w" by blast
  from Cons.IH [OF w1(2)] w1 show ?case by auto
qed

lemma init_uninitialized:
  assumes "uninitialized w" and "init tbl n step w = Inr (b, w')"
  shows "uninitialized w' \<longleftrightarrow> \<not> b"
proof (cases b)
  case True
  with init_cases [OF assms(2)] show ?thesis
    by (auto simp: after_init_def uninitialized_def)
next
  case False
  with init_cases [OF assms(2)] assms(1) show ?thesis
    by (simp add: after_failed_init_def uninitialized_def)
qed

text \<open>
  C4, as the code has it. A freshly constructed scheduler is uninitialised (null
  table, no tasks). In that state \<^verbatim>\<open>run\<close> returns without invoking anything or
  changing anything; \<^verbatim>\<open>tick\<close> is not rejected and is no no-op: it adds the tick step
  to the counter and returns the sum; and no sequence of \<^verbatim>\<open>tick\<close>, \<^verbatim>\<open>run\<close>,
  \<^verbatim>\<open>getTickCount\<close> and \<^verbatim>\<open>setTickInterval\<close> calls, nor a failed \<^verbatim>\<open>init\<close>, binds the
  scheduler: only a successful \<^verbatim>\<open>init\<close> leaves the uninitialised state.
\<close>

theorem uninitialized_run_noop_tick_counts:
  assumes "uninitialized w"
  shows "uninitialized \<lparr>sched = new_scheduler, mem = h, log = l\<rparr> \<and>
         run w = Inr w \<and>
         tick w = (sys_tick_ctr (sched w) + systick_interval (sched w),
                   w\<lparr>sched := (sched w)\<lparr>sys_tick_ctr :=
                        sys_tick_ctr (sched w) + systick_interval (sched w)\<rparr>\<rparr>) \<and>
         (\<exists>w'. do_calls cs w = Inr w' \<and> uninitialized w' \<and> mem w' = mem w \<and> log w' = log w) \<and>
         (init tbl n step w = Inr (b, w') \<longrightarrow> (uninitialized w' \<longleftrightarrow> \<not> b))"
proof (intro conjI)
  show "uninitialized \<lparr>sched = new_scheduler, mem = h, log = l\<rparr>"
    by (simp add: uninitialized_def new_scheduler_def)
  show "run w = Inr w" using assms by (rule run_uninitialized)
  show "tick w = (sys_tick_ctr (sched w) + systick_interval (sched w),
                   w\<lparr>sched := (sched w)\<lparr>sys_tick_ctr :=
                        sys_tick_ctr (sched w) + systick_interval (sched w)\<rparr>\<rparr>)"
    by (simp add: tick_def Let_def)
  show "\<exists>w'. do_calls cs w = Inr w' \<and> uninitialized w' \<and> mem w' = mem w \<and> log w' = log w"
    using assms by (rule do_calls_uninitialized)
  show "init tbl n step w = Inr (b, w') \<longrightarrow> (uninitialized w' \<longleftrightarrow> \<not> b)"
    using assms by (auto dest: init_uninitialized)
qed

theorem uninitialized_run_noop_tick_counts_witness:
  "uninitialized demo_world \<and> run demo_world = Inr demo_world \<and> fst (tick demo_world) = 1 \<and>
   (\<exists>w'. do_calls [Tick, Run, SetTickInterval 4, Tick, Run] demo_world = Inr w' \<and>
         uninitialized w' \<and> mem w' = demo_mem \<and> log w' = [])"
proof -
  have u: "uninitialized demo_world"
    by (simp add: uninitialized_def demo_world_def new_scheduler_def)
  note t = uninitialized_run_noop_tick_counts
    [OF u, of demo_mem "[]" "[Tick, Run, SetTickInterval 4, Tick, Run]" None 0 1 False demo_world]
  have m: "mem demo_world = demo_mem" "log demo_world = []"
    by (simp_all add: demo_world_def)
  from t have "run demo_world = Inr demo_world" by blast
  moreover from t have "fst (tick demo_world) =
      sys_tick_ctr (sched demo_world) + systick_interval (sched demo_world)"
    by simp
  then have "fst (tick demo_world) = 1"
    by (simp add: demo_world_def new_scheduler_def)
  moreover from t have "\<exists>w'. do_calls [Tick, Run, SetTickInterval 4, Tick, Run] demo_world = Inr w' \<and>
         uninitialized w' \<and> mem w' = demo_mem \<and> log w' = []"
    unfolding m by blast
  ultimately show ?thesis using u by blast
qed

theorem uninitialized_tick_advances_counter:
  "uninitialized demo_world \<and> getTickCount demo_world = 0 \<and>
   getTickCount (snd (tick demo_world)) = 1"
  by (simp add: uninitialized_def demo_world_def new_scheduler_def getTickCount_def tick_def
      Let_def)

section \<open>Changing the tick step\<close>

lemma invoke_setTickInterval:
  "invoke i f (setTickInterval s w) = setTickInterval s (invoke i f w)"
  by (simp add: invoke_def setTickInterval_def)

lemma write_last_called_setTickInterval:
  "write_last_called a t v (setTickInterval s w) = setTickInterval s (write_last_called a t v w)"
  by (simp add: write_last_called_def setTickInterval_def)

lemma read_task_setTickInterval:
  "read_task tbl i (setTickInterval s w) = read_task tbl i w"
  by (simp add: read_task_def setTickInterval_def split: option.splits)

lemma run_loop_setTickInterval:
  "run_loop i (setTickInterval s w) = map_sum id (setTickInterval s) (run_loop i w)"
proof (induction i w rule: run_loop.induct)
  case (1 i w)
  have sch: "num_tasks (sched (setTickInterval s w)) = num_tasks (sched w)"
    "sys_tick_ctr (sched (setTickInterval s w)) = sys_tick_ctr (sched w)"
    "task_table (sched (setTickInterval s w)) = task_table (sched w)"
    by (simp_all add: setTickInterval_def)
  show ?case
  proof (cases "i < unat (num_tasks (sched w))")
    case False
    then show ?thesis
      by (simp add: run_loop.simps [of i w] run_loop.simps [of i "setTickInterval s w"] sch)
  next
    case True
    show ?thesis
    proof (cases "read_task (task_table (sched w)) i w")
      case (Inl e)
      with True show ?thesis
        by (simp add: run_loop.simps [of i w] run_loop.simps [of i "setTickInterval s w"]
            read_task_setTickInterval sch)
    next
      case (Inr t)
      show ?thesis
      proof (cases "func t")
        case None
        with True Inr show ?thesis
          by (simp add: run_loop.simps [of i w] run_loop.simps [of i "setTickInterval s w"]
              read_task_setTickInterval sch)
      next
        case (Some f)
        with True Inr "1.IH" [OF True refl Inr Some] show ?thesis
          by (simp add: run_loop.simps [of i w] run_loop.simps [of i "setTickInterval s w"]
              read_task_setTickInterval sch invoke_setTickInterval
              write_last_called_setTickInterval Let_def)
      qed
    qed
  qed
qed

text \<open>
  C8. \<^verbatim>\<open>setTickInterval\<close> stores the new step and nothing else: task memory (hence
  every \<^verbatim>\<open>last_called_\<close>), log, tick counter, bound table and task count are as
  before; the next \<^verbatim>\<open>tick\<close> adds the new step; and a dispatch cycle does the same
  with the new step as with the old one (same faults, same invocations, same
  bookkeeping), so no task's due status depends on the step.
\<close>

theorem setTickInterval_only_step:
  "systick_interval (sched (setTickInterval s w)) = s \<and>
   mem (setTickInterval s w) = mem w \<and>
   log (setTickInterval s w) = log w \<and>
   sys_tick_ctr (sched (setTickInterval s w)) = sys_tick_ctr (sched w) \<and>
   task_table (sched (setTickInterval s w)) = task_table (sched w) \<and>
   num_tasks (sched (setTickInterval s w)) = num_tasks (sched w) \<and>
   fst (tick (setTickInterval s w)) = sys_tick_ctr (sched w) + s \<and>
   due (sys_tick_ctr (sched (setTickInterval s w))) t = due (sys_tick_ctr (sched w)) t \<and>
   run (setTickInterval s w) = map_sum id (setTickInterval s) (run w)"
  by (simp add: run_def run_loop_setTickInterval)
     (simp add: setTickInterval_def tick_def Let_def)

theorem setTickInterval_only_step_witness:
  "systick_interval (sched (setTickInterval 7 demo_world)) = 7 \<and>
   mem (setTickInterval 7 demo_world) = mem demo_world \<and>
   fst (tick (setTickInterval 7 demo_world)) = 7"
  using setTickInterval_only_step [of 7 demo_world "Task None 0"]
  by (simp add: demo_world_def new_scheduler_def)

section \<open>Successful initialisation\<close>

lemma stops_at_after_init:
  assumes "\<And>j. j < unat n \<Longrightarrow> callable_at (mem w) (p + j)"
  shows "stops_at (after_init w p n step) p (unat n)"
proof -
  have "callable_at (mem (after_init w p n step)) (p + j)" if "j < unat n" for j
    using assms [OF that] that
    by (auto simp: after_init_def callable_at_def armed_def split: option.splits)
  then show ?thesis
    by (simp add: stops_at_def list_all_iff) (simp add: after_init_def)
qed

lemma mem_after_init:
  "mem (after_init w p n step) a =
     (if p \<le> a \<and> a < p + unat n then map_option armed (mem w a) else mem w a)"
  by (simp add: after_init_def)

lemma sched_after_init:
  "sched (after_init w p n step) =
     \<lparr>sys_tick_ctr = 0, systick_interval = step, num_tasks = n, task_table = Some p\<rparr>"
  by (simp add: after_init_def)

lemma log_after_init [simp]: "log (after_init w p n step) = log w"
  by (simp add: after_init_def)

lemma last_called_armed: "last_called (armed t) = 0 - interval t"
  by (simp add: armed_def UINT32_MAX_def)

lemma func_armed [simp]: "func (armed t) = func t"
  by (simp add: armed_def)

lemma interval_armed [simp]: "interval (armed t) = interval t"
  by (simp add: armed_def)

lemma due_armed_at_0: "due 0 (armed t)"
  by (simp add: due_def last_called_armed)

text \<open>
  At counter value \<open>c\<close> a freshly armed periodic descriptor is due exactly while
  \<open>c + interval\<close> has not passed \<open>2 ^ 32\<close>: it counts as having run \<open>interval\<close> ticks
  before counter value 0.
\<close>

lemma due_armed_iff:
  "due c (armed t) \<longleftrightarrow> interval t = 0 \<or> unat c + unat (interval t) < 2 ^ 32"
proof -
  have a: "interval t \<le> interval t + c \<longleftrightarrow> unat (interval t) + unat c < 2 ^ LENGTH(32)"
    by (rule no_olen_add_nat)
  have b: "c - last_called (armed t) = interval t + c"
    by (simp add: last_called_armed)
  have c: "unat (interval t) + unat c = unat c + unat (interval t)"
    by (rule add.commute)
  have "interval t \<le> c - last_called (armed t) \<longleftrightarrow>
      unat c + unat (interval t) < 2 ^ 32"
    unfolding b a c by simp
  then show ?thesis unfolding due_def interval_armed by (rule arg_cong)
qed

text \<open>
  C5. A successful \<^verbatim>\<open>init\<close> was given a non-null table; it leaves the scheduler with
  counter 0, the given step, count and table; every descriptor of the table keeps its
  action and interval and has \<^verbatim>\<open>last_called_\<close> \<open>= UINT32_MAX - interval + 1\<close> in
  32-bit arithmetic; memory outside the table and the log are untouched. Each
  descriptor is then due at the counter value that \<^verbatim>\<open>init\<close> leaves (and at every
  counter value \<open>c\<close> for which \<open>c + interval\<close> stays below \<open>2 ^ 32\<close>), and the dispatch
  cycle that follows invokes every one of them, in table order.
\<close>

theorem init_success_binds_and_arms:
  assumes "init tbl n step w = Inr (True, w')"
  shows "\<exists>p. tbl = Some p \<and>
           sched w' = \<lparr>sys_tick_ctr = 0, systick_interval = step, num_tasks = n,
                        task_table = Some p\<rparr> \<and>
           log w' = log w \<and>
           (\<forall>a. a < p \<or> p + unat n \<le> a \<longrightarrow> mem w' a = mem w a) \<and>
           (\<forall>j<unat n. \<exists>t f. mem w (p + j) = Some t \<and> func t = Some f \<and>
               mem w' (p + j) = Some (t\<lparr>last_called := UINT32_MAX - interval t + 1\<rparr>) \<and>
               due (sys_tick_ctr (sched w')) (t\<lparr>last_called := UINT32_MAX - interval t + 1\<rparr>) \<and>
               (\<forall>c. unat c + unat (interval t) < 2 ^ 32 \<longrightarrow>
                  due c (t\<lparr>last_called := UINT32_MAX - interval t + 1\<rparr>))) \<and>
           (\<exists>w''. run w' = Inr w'' \<and>
               new_calls w' w'' =
                 map (\<lambda>j. Invoke j (the (func (the (mem w (p + j)))))) [0..<unat n])"
proof -
  from init_cases [OF assms] obtain p where p: "tbl = Some p"
    and call: "\<And>j. j < unat n \<Longrightarrow> callable_at (mem w) (p + j)"
    and w': "w' = after_init w p n step" by auto
  have tasks: "\<exists>t f. mem w (p + j) = Some t \<and> func t = Some f \<and>
               mem w' (p + j) = Some (t\<lparr>last_called := UINT32_MAX - interval t + 1\<rparr>) \<and>
               due (sys_tick_ctr (sched w')) (t\<lparr>last_called := UINT32_MAX - interval t + 1\<rparr>) \<and>
               (\<forall>c. unat c + unat (interval t) < 2 ^ 32 \<longrightarrow>
                  due c (t\<lparr>last_called := UINT32_MAX - interval t + 1\<rparr>))"
    if "j < unat n" for j
  proof -
    from call [OF that] obtain t f where t: "mem w (p + j) = Some t" "func t = Some f"
      by (auto simp: callable_at_def split: option.splits)
    moreover have "mem w' (p + j) = Some (armed t)"
      using t that by (simp add: w' mem_after_init)
    moreover have "due (sys_tick_ctr (sched w')) (armed t)"
      by (simp add: w' sched_after_init due_armed_at_0)
    moreover have "\<forall>c. unat c + unat (interval t) < 2 ^ 32 \<longrightarrow> due c (armed t)"
      by (simp add: due_armed_iff)
    ultimately show ?thesis by (auto simp: armed_def)
  qed
  have st: "stops_at w' p (unat n)"
    unfolding w' using call by (rule stops_at_after_init)
  have "expected_calls 0 (mem w') p 0 m =
          map (\<lambda>j. Invoke j (the (func (the (mem w (p + j)))))) [0..<m]" if "m \<le> unat n" for m
    using that
  proof (induction m)
    case 0
    show ?case by simp
  next
    case (Suc m)
    then have "m < unat n" by simp
    from call [OF this] obtain t f where t: "mem w (p + m) = Some t" "func t = Some f"
      by (auto simp: callable_at_def split: option.splits)
    with \<open>m < unat n\<close> have "call_of 0 (mem w') p m = [Invoke m f]"
      by (simp add: w' mem_after_init call_of_def due_armed_at_0)
    with Suc t show ?case by (simp add: expected_calls_Suc)
  qed
  then have "new_calls w' (after_cycle w' p 0 (unat n)) =
          map (\<lambda>j. Invoke j (the (func (the (mem w (p + j)))))) [0..<unat n]"
    by (simp add: w' sched_after_init)
  with run_stops_at [OF st] have
    "\<exists>w''. run w' = Inr w'' \<and> new_calls w' w'' =
        map (\<lambda>j. Invoke j (the (func (the (mem w (p + j)))))) [0..<unat n]"
    by simp
  moreover have "\<forall>a. a < p \<or> p + unat n \<le> a \<longrightarrow> mem w' a = mem w a"
    by (auto simp: w' mem_after_init)
  moreover have "sched w' = \<lparr>sys_tick_ctr = 0, systick_interval = step, num_tasks = n,
                        task_table = Some p\<rparr>" "log w' = log w"
    by (simp_all add: w' sched_after_init)
  ultimately show ?thesis using p tasks by blast
qed

lemma demo_callable_table:
  "\<And>j. j < 2 \<Longrightarrow> callable_at demo_mem (100 + j)"
  by (auto simp: demo_mem_def callable_at_def Task_def less_Suc_eq numeral_2_eq_2)

lemma init_demo:
  "init (Some 100) 2 1 demo_world = Inr (True, after_init demo_world 100 2 1)"
proof (rule init_success)
  show "callable_at (mem demo_world) (100 + j)" if "j < unat (2::uint16)" for j
    using that demo_callable_table [of j] by (simp add: demo_world_def)
qed

theorem init_success_binds_and_arms_witness:
  "init (Some 100) 2 1 demo_world = Inr (True, after_init demo_world 100 2 1) \<and>
   mem (after_init demo_world 100 2 1) 100 =
     Some \<lparr>func = Some 1, interval = 10, last_called = 0xFFFFFFF6\<rparr> \<and>
   mem (after_init demo_world 100 2 1) 101 =
     Some \<lparr>func = Some 2, interval = 0, last_called = 0\<rparr> \<and>
   (\<exists>w''. run (after_init demo_world 100 2 1) = Inr w'' \<and>
      new_calls (after_init demo_world 100 2 1) w'' = [Invoke 0 1, Invoke 1 2])"
proof -
  note t = init_success_binds_and_arms [OF init_demo]
  have m: "mem demo_world 100 = Some (Task (Some 1) 10)"
    "mem demo_world 101 = Some (Task (Some 2) 0)"
    by (simp_all add: demo_world_def demo_mem_def)
  have u: "[0..<unat (2::uint16)] = [0, 1]" by (simp add: upt_rec)
  from t have "\<exists>w''. run (after_init demo_world 100 2 1) = Inr w'' \<and>
      new_calls (after_init demo_world 100 2 1) w'' =
        map (\<lambda>j. Invoke j (the (func (the (mem demo_world (100 + j)))))) [0..<unat (2::uint16)]"
    by blast
  then have "\<exists>w''. run (after_init demo_world 100 2 1) = Inr w'' \<and>
      new_calls (after_init demo_world 100 2 1) w'' = [Invoke 0 1, Invoke 1 2]"
    unfolding u by (simp add: m Task_def)
  moreover have "mem (after_init demo_world 100 2 1) 100 =
     Some \<lparr>func = Some 1, interval = 10, last_called = 0xFFFFFFF6\<rparr>"
    "mem (after_init demo_world 100 2 1) 101 =
     Some \<lparr>func = Some 2, interval = 0, last_called = 0\<rparr>"
    by (simp_all add: mem_after_init demo_world_def demo_mem_def armed_def Task_def UINT32_MAX_def)
  ultimately show ?thesis using init_demo by blast
qed

section \<open>An empty table\<close>

lemma after_init_empty:
  "after_init w p 0 step =
     w\<lparr>sched := \<lparr>sys_tick_ctr = 0, systick_interval = step, num_tasks = 0,
                  task_table = Some p\<rparr>\<rparr>"
proof -
  have "(\<lambda>a. if p \<le> a \<and> a < p + unat (0::uint16) then map_option armed (mem w a)
             else mem w a) = mem w"
    by (rule ext) auto
  then show ?thesis by (simp add: after_init_def)
qed

lemma evolved_empty:
  assumes "evolved p 0 w w'"
  shows "mem w' = mem w" and "log w' = log w"
proof -
  from assms have "\<forall>a. a < p \<or> p + 0 \<le> a \<longrightarrow> mem w' a = mem w a"
    unfolding evolved_def by blast
  then have "mem w' a = mem w a" for a
    by (cases "a < p") simp_all
  then show "mem w' = mem w" by (rule ext)
  from assms obtain evs where "log w' = log w @ evs" "\<forall>e\<in>set evs. position e < 0"
    unfolding evolved_def by blast
  then show "log w' = log w" by (cases evs) auto
qed

text \<open>
  C10. \<^verbatim>\<open>init\<close> on a non-null table with count 0 returns true without reading any
  descriptor; it binds the table with a task count of zero, stores the step and
  resets the counter; and after any further calls of \<^verbatim>\<open>tick\<close>, \<^verbatim>\<open>run\<close>,
  \<^verbatim>\<open>getTickCount\<close> and \<^verbatim>\<open>setTickInterval\<close> the task memory and the log are as
  before, the binding is the same, and \<^verbatim>\<open>run\<close> returns the world unchanged.
\<close>

theorem init_empty_table:
  "init (Some p) 0 step w =
     Inr (True, w\<lparr>sched := \<lparr>sys_tick_ctr = 0, systick_interval = step, num_tasks = 0,
                             task_table = Some p\<rparr>\<rparr>) \<and>
   (\<exists>w'. do_calls cs
            (w\<lparr>sched := \<lparr>sys_tick_ctr = 0, systick_interval = step, num_tasks = 0,
                          task_table = Some p\<rparr>\<rparr>) = Inr w' \<and>
         mem w' = mem w \<and> log w' = log w \<and>
         num_tasks (sched w') = 0 \<and> task_table (sched w') = Some p \<and>
         run w' = Inr w')"
proof -
  let ?w1 = "w\<lparr>sched := \<lparr>sys_tick_ctr = 0, systick_interval = step, num_tasks = 0,
                          task_table = Some p\<rparr>\<rparr>"
  have "init (Some p) 0 step w = Inr (True, after_init w p 0 step)"
    by (rule init_success) simp
  then have i: "init (Some p) 0 step w = Inr (True, ?w1)"
    by (simp only: after_init_empty)
  have st: "stops_at ?w1 p 0"
    by (simp add: stops_at_def)
  from do_calls_evolved [OF st, of cs] obtain w' where
    w': "do_calls cs ?w1 = Inr w'" "evolved p 0 ?w1 w'" "stops_at w' p 0" by blast
  from evolved_empty [OF w'(2)] have m: "mem w' = mem w" "log w' = log w" by simp_all
  from w'(2) have s: "num_tasks (sched w') = 0" "task_table (sched w') = Some p"
    by (simp_all add: evolved_def)
  from run_stops_at [OF w'(3)] have "run w' = Inr w'" by simp
  with i w'(1) m s show ?thesis by blast
qed

theorem init_empty_table_witness:
  "init (Some 100) 0 3 demo_world =
     Inr (True, demo_world\<lparr>sched := \<lparr>sys_tick_ctr = 0, systick_interval = 3, num_tasks = 0,
                             task_table = Some 100\<rparr>\<rparr>) \<and>
   (\<exists>w'. do_calls [Run, Tick, Run]
            (demo_world\<lparr>sched := \<lparr>sys_tick_ctr = 0, systick_interval = 3, num_tasks = 0,
                          task_table = Some 100\<rparr>\<rparr>) = Inr w' \<and>
         mem w' = mem demo_world \<and> log w' = log demo_world \<and>
         num_tasks (sched w') = 0 \<and> task_table (sched w') = Some 100 \<and>
         run w' = Inr w')"
  by (rule init_empty_table)

section \<open>A null action in the table\<close>

lemma first_null:
  assumes "null_at h (p + i)" and "\<forall>j<i. h (p + j) \<noteq> None"
  shows "\<exists>m\<le>i. null_at h (p + m) \<and> (\<forall>j<m. callable_at h (p + j))"
proof -
  define m where "m = (LEAST k. null_at h (p + k))"
  have m: "null_at h (p + m)" unfolding m_def using assms(1) by (rule LeastI)
  have mi: "m \<le> i" unfolding m_def using assms(1) by (rule Least_le)
  have "callable_at h (p + j)" if "j < m" for j
  proof -
    from that have "\<not> null_at h (p + j)" unfolding m_def by (rule not_less_Least)
    moreover from that mi assms(2) have "h (p + j) \<noteq> None" by simp
    ultimately show ?thesis by (auto simp: null_at_def callable_at_def)
  qed
  with m mi show ?thesis by blast
qed

lemma stops_at_unique:
  assumes "stops_at w p m" and "stops_at w p m'"
  shows "m = m'"
proof -
  have "\<not> m < m'" if a: "stops_at w p m" and b: "stops_at w p m'" for m m'
  proof
    assume lt: "m < m'"
    with b have "callable_at (mem w) (p + m)" by (simp add: stops_atD)
    moreover from lt a b have "null_at (mem w) (p + m)" by (auto simp: stops_at_def)
    ultimately show False by (auto simp: callable_at_def null_at_def split: option.splits)
  qed
  from this [OF assms] this [OF assms(2,1)] show ?thesis by simp
qed

text \<open>
  C6. Let the scheduler be bound to a table that has a null action at position \<open>i\<close>
  below the task count, the descriptors before it being readable. Then the loop of
  \<^verbatim>\<open>run\<close> stops at the first null action, at some position \<open>m \<le> i\<close> (at \<open>i\<close> itself
  when every action before \<open>i\<close> is set). After any calls of the member functions the
  null action is still there, and a dispatch cycle returns having evaluated the
  positions before \<open>m\<close> as usual (each is invoked exactly when it is due, in table
  order) and invoked no position from \<open>i\<close> on; no cell at or beyond position \<open>i\<close>, no
  action, no interval and no field of the scheduler has changed, so the same
  truncation happens on the next cycle.
\<close>

theorem null_action_truncates_every_cycle:
  assumes "task_table (sched w) = Some p" and "i < unat (num_tasks (sched w))"
    and "null_at (mem w) (p + i)" and "\<forall>j<i. mem w (p + j) \<noteq> None"
  shows "\<exists>m wa wb. m \<le> i \<and> stops_at w p m \<and>
           ((\<forall>j<i. callable_at (mem w) (p + j)) \<longrightarrow> m = i) \<and>
           do_calls cs w = Inr wa \<and> stops_at wa p m \<and> null_at (mem wa) (p + i) \<and>
           run wa = Inr wb \<and> stops_at wb p m \<and> null_at (mem wb) (p + i) \<and>
           new_calls wa wb = expected_calls (sys_tick_ctr (sched wa)) (mem wa) p 0 m \<and>
           (\<forall>e\<in>set (new_calls w wb). position e < i) \<and>
           (\<forall>a. p + i \<le> a \<longrightarrow> mem wb a = mem w a) \<and>
           (\<forall>a. map_option func (mem wb a) = map_option func (mem w a)) \<and>
           (\<forall>a. map_option interval (mem wb a) = map_option interval (mem w a)) \<and>
           sched wb = sched wa \<and> num_tasks (sched wb) = num_tasks (sched w) \<and>
           task_table (sched wb) = task_table (sched w)"
proof -
  from first_null [OF assms(3,4)] obtain m where m: "m \<le> i" "null_at (mem w) (p + m)"
    "\<forall>j<m. callable_at (mem w) (p + j)" by blast
  with assms(1,2) have st: "stops_at w p m"
    by (simp add: stops_at_def list_all_iff)
  have uniq: "m = i" if "\<forall>j<i. callable_at (mem w) (p + j)"
  proof -
    from that assms(1,2,3) have "stops_at w p i"
      by (simp add: stops_at_def list_all_iff)
    with st show ?thesis by (rule stops_at_unique)
  qed
  from do_calls_evolved [OF st, of cs] obtain wa where
    wa: "do_calls cs w = Inr wa" "evolved p m w wa" "stops_at wa p m" by blast
  let ?wb = "after_cycle wa p 0 m"
  have run: "run wa = Inr ?wb" using wa(3) by (rule run_stops_at)
  have ev: "evolved p m wa ?wb" using wa(3) by (rule evolved_after_cycle)
  have evb: "evolved p m w ?wb" using wa(2) ev by (rule evolved_trans)
  from evb obtain evs where evs: "log ?wb = log w @ evs" "\<forall>e\<in>set evs. position e < m"
    unfolding evolved_def by blast
  with m(1) have pos: "\<forall>e\<in>set (new_calls w ?wb). position e < i"
    by (auto simp: new_calls_def)
  from evb have fn: "\<forall>a. map_option func (mem ?wb a) = map_option func (mem w a)"
    and iv: "\<forall>a. map_option interval (mem ?wb a) = map_option interval (mem w a)"
    and sc: "num_tasks (sched ?wb) = num_tasks (sched w)"
      "task_table (sched ?wb) = task_table (sched w)"
    and fr: "\<forall>a. a < p \<or> p + m \<le> a \<longrightarrow> mem ?wb a = mem w a"
    unfolding evolved_def by blast+
  from fr m(1) have frame: "\<forall>a. p + i \<le> a \<longrightarrow> mem ?wb a = mem w a" by simp
  from wa(2) have "\<forall>a. map_option func (mem wa a) = map_option func (mem w a)"
    unfolding evolved_def by blast
  then have na: "null_at (mem wa) (p + i)"
    using assms(3) by (simp add: null_at_func [of "mem wa" _ "mem w"])
  from fn have nb: "null_at (mem ?wb) (p + i)"
    using assms(3) by (simp add: null_at_func [of "mem ?wb" _ "mem w"])
  have "stops_at ?wb p m" using wa(3) by simp
  with m(1) st uniq wa(1,3) run na nb pos frame fn iv sc show ?thesis
    by (intro exI [of _ m] exI [of _ wa] exI [of _ ?wb]) simp
qed

lemma demo_mem_200:
  "demo_mem 200 = Some (Task (Some 4) 10)" "demo_mem 201 = Some (Task None 5)"
  "demo_mem 202 = Some (Task (Some 6) 0)"
  by (simp_all add: demo_mem_def)

theorem null_action_truncates_every_cycle_witness:
  "\<exists>wb. run demo_truncated = Inr wb \<and> new_calls demo_truncated wb = [Invoke 0 4] \<and>
        mem wb 201 = Some (Task None 5) \<and> mem wb 202 = Some (Task (Some 6) 0) \<and>
        num_tasks (sched wb) = 3"
proof -
  have a: "task_table (sched demo_truncated) = Some 200"
    "1 < unat (num_tasks (sched demo_truncated))"
    "null_at (mem demo_truncated) (200 + 1)"
    "\<forall>j<1. mem demo_truncated (200 + j) \<noteq> None"
    by (simp_all add: demo_truncated_def null_at_def demo_mem_200 Task_def)
  have c: "\<forall>j<1. callable_at (mem demo_truncated) (200 + j)"
    by (simp add: demo_truncated_def callable_at_def demo_mem_200 Task_def)
  from null_action_truncates_every_cycle [OF a, of "[]"] c
  obtain wb where wb: "run demo_truncated = Inr wb"
    "new_calls demo_truncated wb =
       expected_calls (sys_tick_ctr (sched demo_truncated)) (mem demo_truncated) 200 0 1"
    "\<forall>a. 200 + 1 \<le> a \<longrightarrow> mem wb a = mem demo_truncated a"
    "num_tasks (sched wb) = num_tasks (sched demo_truncated)"
    by auto
  have "expected_calls (sys_tick_ctr (sched demo_truncated)) (mem demo_truncated) 200 0 1 =
      [Invoke 0 4]"
    by (simp add: expected_calls_def call_of_def demo_truncated_def demo_mem_200 Task_def
        due_def)
  with wb show ?thesis
    by (intro exI [of _ wb]) (simp add: demo_truncated_def demo_mem_200)
qed

section \<open>Continuous tasks\<close>

text \<open>
  C7. Let the scheduler be bound to a table whose loop reaches position \<open>i\<close> (every
  descriptor up to \<open>i\<close> has an action), and let the descriptor at \<open>i\<close> be continuous
  (interval 0). Then after any calls of the member functions, whatever the tick
  counter has become, a dispatch cycle returns and has invoked that action exactly
  once, and the descriptor, its \<^verbatim>\<open>last_called_\<close> included, is the same before the
  cycle and after it.
\<close>

theorem continuous_task_every_cycle:
  assumes "stops_at w p m" and "i < m" and "mem w (p + i) = Some t" and "interval t = 0"
  shows "\<exists>f wa wb. func t = Some f \<and> do_calls cs w = Inr wa \<and> run wa = Inr wb \<and>
           calls_at i wa wb = [Invoke i f] \<and>
           mem wa (p + i) = Some t \<and> mem wb (p + i) = Some t"
proof -
  from do_calls_evolved [OF assms(1), of cs] obtain wa where
    wa: "do_calls cs w = Inr wa" "evolved p m w wa" "stops_at wa p m" by blast
  from wa(2) assms(3,4) have ta: "mem wa (p + i) = Some t"
    unfolding evolved_def by blast
  from run_position [OF wa(3) assms(2) ta] assms(4) obtain f wb where
    "func t = Some f" "run wa = Inr wb" "calls_at i wa wb = [Invoke i f]"
    "mem wb (p + i) = Some t"
    by (auto simp: due_def evaluated_def)
  with wa(1) ta show ?thesis by blast
qed

lemma stops_at_demo: "stops_at (after_init demo_world 100 2 1) 100 2"
proof -
  have "stops_at (after_init demo_world 100 2 1) 100 (unat (2::uint16))"
  proof (rule stops_at_after_init)
    show "callable_at (mem demo_world) (100 + j)" if "j < unat (2::uint16)" for j
      using that demo_callable_table [of j] by (simp add: demo_world_def)
  qed
  then show ?thesis by simp
qed

lemma mem_demo_after_init:
  "mem (after_init demo_world 100 2 1) (100 + 0) =
     Some \<lparr>func = Some 1, interval = 10, last_called = 0xFFFFFFF6\<rparr>"
  "mem (after_init demo_world 100 2 1) (100 + 1) =
     Some \<lparr>func = Some 2, interval = 0, last_called = 0\<rparr>"
  by (simp_all add: mem_after_init demo_world_def demo_mem_def armed_def Task_def UINT32_MAX_def)

theorem continuous_task_every_cycle_witness:
  "\<exists>wa wb. do_calls [Tick, Run, Tick] (after_init demo_world 100 2 1) = Inr wa \<and>
      run wa = Inr wb \<and> calls_at 1 wa wb = [Invoke 1 2] \<and>
      mem wa (100 + 1) = Some \<lparr>func = Some 2, interval = 0, last_called = 0\<rparr> \<and>
      mem wb (100 + 1) = Some \<lparr>func = Some 2, interval = 0, last_called = 0\<rparr>"
proof -
  have "(1::nat) < 2" by simp
  from continuous_task_every_cycle
    [OF stops_at_demo this mem_demo_after_init(2), of "[Tick, Run, Tick]"]
  show ?thesis by simp
qed

section \<open>After a successful initialisation\<close>

text \<open>
  C9. After a successful \<^verbatim>\<open>init\<close> on \<open>n\<close> descriptors, and after any further calls
  of \<^verbatim>\<open>tick\<close>, \<^verbatim>\<open>run\<close>, \<^verbatim>\<open>getTickCount\<close> and \<^verbatim>\<open>setTickInterval\<close> (no call faults
  and nothing else writes to the table), the scheduler is still bound to the same \<open>n\<close>
  descriptors and each of them has an action, so the test for a null action in
  \<^verbatim>\<open>run\<close> fails at every index; a dispatch cycle returns, and every one of the \<open>n\<close>
  positions is invoked once if its descriptor is due and not at all otherwise.
\<close>

theorem bound_table_fully_dispatched:
  assumes "init tbl n step w0 = Inr (True, w1)"
  shows "\<exists>p w w'. tbl = Some p \<and> do_calls cs w1 = Inr w \<and>
           task_table (sched w) = Some p \<and> num_tasks (sched w) = n \<and>
           bound_to w p \<and> run w = Inr w' \<and> bound_to w' p \<and>
           (\<forall>j<unat n. \<exists>t f. mem w (p + j) = Some t \<and> func t = Some f \<and>
              calls_at j w w' =
                (if due (sys_tick_ctr (sched w)) t then [Invoke j f] else [])) \<and>
           new_calls w w' = expected_calls (sys_tick_ctr (sched w)) (mem w) p 0 (unat n)"
proof -
  from init_cases [OF assms] obtain p where p: "tbl = Some p"
    and call: "\<And>j. j < unat n \<Longrightarrow> callable_at (mem w0) (p + j)"
    and w1: "w1 = after_init w0 p n step" by auto
  have st: "stops_at w1 p (unat n)"
    unfolding w1 using call by (rule stops_at_after_init)
  from do_calls_evolved [OF st, of cs] obtain w where
    w: "do_calls cs w1 = Inr w" "evolved p (unat n) w1 w" "stops_at w p (unat n)" by blast
  from w(2) have sc: "task_table (sched w) = Some p" "num_tasks (sched w) = n"
    by (simp_all add: evolved_def w1 sched_after_init)
  with w(3) have b: "bound_to w p" by (simp add: bound_to_def)
  let ?w' = "after_cycle w p 0 (unat n)"
  have run: "run w = Inr ?w'" using w(3) by (rule run_stops_at)
  have b': "bound_to ?w' p" using w(3) sc by (simp add: bound_to_def)
  have each: "\<exists>t f. mem w (p + j) = Some t \<and> func t = Some f \<and>
        calls_at j w ?w' = (if due (sys_tick_ctr (sched w)) t then [Invoke j f] else [])"
    if "j < unat n" for j
  proof -
    from w(3) that have "callable_at (mem w) (p + j)" by (rule stops_atD)
    then obtain t f where t: "mem w (p + j) = Some t" "func t = Some f"
      by (auto simp: callable_at_def split: option.splits)
    with that show ?thesis
      by (simp add: calls_at_after_cycle call_of_task)
  qed
  have "new_calls w ?w' = expected_calls (sys_tick_ctr (sched w)) (mem w) p 0 (unat n)"
    by simp
  with p w(1) sc b run b' each show ?thesis by blast
qed


theorem bound_table_fully_dispatched_witness:
  "\<exists>w w'. do_calls [Run, Tick] (after_init demo_world 100 2 1) = Inr w \<and>
      bound_to w 100 \<and> run w = Inr w' \<and> num_tasks (sched w) = 2 \<and>
      new_calls w w' = [Invoke 1 2]"
proof -
  have ev: "case do_calls [Run, Tick] (after_init demo_world 100 2 1) of
              Inl e \<Rightarrow> False
            | Inr w \<Rightarrow> expected_calls (sys_tick_ctr (sched w)) (mem w) 100 0 (unat (2::uint16)) =
                        [Invoke 1 2]"
    by code_simp
  from bound_table_fully_dispatched [OF init_demo, of "[Run, Tick]"] obtain w w' where
    w: "do_calls [Run, Tick] (after_init demo_world 100 2 1) = Inr w"
      "bound_to w 100" "run w = Inr w'" "num_tasks (sched w) = 2"
      "new_calls w w' = expected_calls (sys_tick_ctr (sched w)) (mem w) 100 0 (unat (2::uint16))"
    by auto
  from ev w(1) have "expected_calls (sys_tick_ctr (sched w)) (mem w) 100 0 (unat (2::uint16)) =
      [Invoke 1 2]"
    by simp
  with w show ?thesis by auto
qed

section \<open>Periodic tasks\<close>

lemma evaluated_periodic:
  "interval t \<noteq> 0 \<Longrightarrow>
   evaluated c t = (if interval t \<le> c - last_called t then t\<lparr>last_called := c\<rparr> else t)"
  by (simp add: evaluated_def)

lemma due_periodic:
  "interval t \<noteq> 0 \<Longrightarrow> due c t \<longleftrightarrow> interval t \<le> c - last_called t"
  by (simp add: due_def)

text \<open>The descriptor of a position after any calls of the member functions.\<close>

lemma do_calls_position:
  assumes "stops_at w p m" and "i < m" and "mem w (p + i) = Some t"
  shows "\<exists>w' t'. do_calls cs w = Inr w' \<and> stops_at w' p m \<and> mem w' (p + i) = Some t' \<and>
           func t' = func t \<and> interval t' = interval t \<and> (\<not> invoked i w w' \<longrightarrow> t' = t)"
proof -
  from do_calls_evolved [OF assms(1), of cs] obtain w' where
    w': "do_calls cs w = Inr w'" "evolved p m w w'" "stops_at w' p m" by blast
  from w'(2) have "map_option func (mem w' (p + i)) = map_option func (mem w (p + i))"
    "map_option interval (mem w' (p + i)) = map_option interval (mem w (p + i))"
    unfolding evolved_def by blast+
  with assms(3) obtain t' where t': "mem w' (p + i) = Some t'" "func t' = func t"
    "interval t' = interval t" by auto
  from w'(2) have "\<not> invoked i w w' \<longrightarrow> mem w' (p + i) = mem w (p + i)"
    unfolding evolved_def by blast
  with t' assms(3) have "\<not> invoked i w w' \<longrightarrow> t' = t" by simp
  with w'(1,3) t' show ?thesis by blast
qed

text \<open>
  C2. After a successful \<^verbatim>\<open>init\<close> (which leaves the counter at 0), a periodic task
  at position \<open>i\<close> of the table is invoked, once, by a \<^verbatim>\<open>run\<close> that follows at once.
  Further, take any dispatch cycle, reached by any calls \<open>cs\<close> of the member
  functions, that invokes the task, and any later cycle, reached by calls \<open>cs'\<close>
  during which the task is not invoked: the later cycle invokes the task (once)
  exactly if the counter has advanced by at least the interval, modulo \<open>2 ^ 32\<close>, from
  its value at the earlier cycle, and not at all otherwise. None of the calls faults.
\<close>

theorem periodic_task_first_run_and_spacing:
  assumes "init (Some p) n step w0 = Inr (True, w1)" and "i < unat n"
    and "mem w0 (p + i) = Some t" and "interval t \<noteq> 0"
  shows "\<exists>f w2 wa wb. func t = Some f \<and> sys_tick_ctr (sched w1) = 0 \<and>
           run w1 = Inr w2 \<and> calls_at i w1 w2 = [Invoke i f] \<and>
           do_calls cs w1 = Inr wa \<and> run wa = Inr wb \<and>
           (invoked i wa wb \<longrightarrow>
              (\<exists>wc wd. do_calls cs' wb = Inr wc \<and> run wc = Inr wd \<and>
                 (\<not> invoked i wb wc \<longrightarrow>
                    calls_at i wc wd =
                      (if interval t \<le> sys_tick_ctr (sched wc) - sys_tick_ctr (sched wa)
                       then [Invoke i f] else []))))"
proof -
  from init_cases [OF assms(1)]
  have call: "\<And>j. j < unat n \<Longrightarrow> callable_at (mem w0) (p + j)"
    and w1: "w1 = after_init w0 p n step" by auto
  have st1: "stops_at w1 p (unat n)"
    unfolding w1 using call by (rule stops_at_after_init)
  from call [OF assms(2)] assms(3) obtain f where f: "func t = Some f"
    by (auto simp: callable_at_def)
  have c1: "sys_tick_ctr (sched w1) = 0" by (simp add: w1 sched_after_init)
  have m1: "mem w1 (p + i) = Some (armed t)"
    using assms(2,3) by (simp add: w1 mem_after_init)
  from run_position [OF st1 assms(2) m1] f obtain w2 where
    w2: "run w1 = Inr w2" "calls_at i w1 w2 = [Invoke i f]"
    by (auto simp: c1 due_armed_at_0)
  from do_calls_position [OF st1 assms(2) m1, of cs] obtain wa ta where
    wa: "do_calls cs w1 = Inr wa" "stops_at wa p (unat n)" "mem wa (p + i) = Some ta"
      "func ta = Some f" "interval ta = interval t"
    by (auto simp: f)
  let ?ca = "sys_tick_ctr (sched wa)"
  from run_position [OF wa(2) assms(2) wa(3)] obtain wb where
    wb: "run wa = Inr wb"
      "calls_at i wa wb = (if due ?ca ta then [Invoke i f] else [])"
      "mem wb (p + i) = Some (evaluated ?ca ta)" "stops_at wb p (unat n)"
    by (auto simp: wa(4))
  have later: "\<exists>wc wd. do_calls cs' wb = Inr wc \<and> run wc = Inr wd \<and>
                 (\<not> invoked i wb wc \<longrightarrow>
                    calls_at i wc wd =
                      (if interval t \<le> sys_tick_ctr (sched wc) - ?ca
                       then [Invoke i f] else []))"
    if inv: "invoked i wa wb"
  proof -
    from inv wb(2) have "due ?ca ta" by (auto simp: invoked_def split: if_splits)
    with assms(4) wa(5) have "evaluated ?ca ta = ta\<lparr>last_called := ?ca\<rparr>"
      by (simp add: evaluated_periodic due_periodic)
    with wb(3) have mb: "mem wb (p + i) = Some (ta\<lparr>last_called := ?ca\<rparr>)" by simp
    from do_calls_position [OF wb(4) assms(2) mb, of cs'] obtain wc tc where
      wc: "do_calls cs' wb = Inr wc" "stops_at wc p (unat n)" "mem wc (p + i) = Some tc"
        "func tc = Some f" "interval tc = interval t"
        "\<not> invoked i wb wc \<longrightarrow> tc = ta\<lparr>last_called := ?ca\<rparr>"
      by (auto simp: wa(4,5))
    from run_position [OF wc(2) assms(2) wc(3)] obtain wd where
      wd: "run wc = Inr wd"
        "calls_at i wc wd = (if due (sys_tick_ctr (sched wc)) tc then [Invoke i f] else [])"
      by (auto simp: wc(4))
    have "calls_at i wc wd =
            (if interval t \<le> sys_tick_ctr (sched wc) - ?ca then [Invoke i f] else [])"
      if "\<not> invoked i wb wc"
    proof -
      from that wc(6) have "tc = ta\<lparr>last_called := ?ca\<rparr>" by simp
      with wd(2) assms(4) wa(5) show ?thesis by (simp add: due_def)
    qed
    with wc(1) wd(1) show ?thesis by blast
  qed
  from f c1 w2 wa(1) wb(1) later show ?thesis by blast
qed

theorem periodic_task_first_run_and_spacing_witness:
  "\<exists>w2 wc wd. run (after_init demo_world 100 2 1) = Inr w2 \<and>
      calls_at 0 (after_init demo_world 100 2 1) w2 = [Invoke 0 1] \<and>
      do_calls [Tick, Tick, Tick, Tick, Tick, Run, Tick, Tick, Tick, Tick, Tick] w2 = Inr wc \<and>
      \<not> invoked 0 w2 wc \<and> sys_tick_ctr (sched wc) = 10 \<and>
      run wc = Inr wd \<and> calls_at 0 wc wd = [Invoke 0 1]"
proof -
  let ?w1 = "after_init demo_world 100 2 1"
  let ?cs = "[Tick, Tick, Tick, Tick, Tick, Run, Tick, Tick, Tick, Tick, Tick]"
  have ev: "case run ?w1 of
              Inl e \<Rightarrow> False
            | Inr w2 \<Rightarrow>
                (case do_calls ?cs w2 of
                   Inl e \<Rightarrow> False
                 | Inr wc \<Rightarrow> \<not> invoked 0 w2 wc \<and> sys_tick_ctr (sched wc) = 10)"
    by code_simp
  have i: "0 < unat (2::uint16)" by simp
  have m: "mem demo_world (100 + 0) = Some (Task (Some 1) 10)"
    by (simp add: demo_world_def demo_mem_def)
  have k: "interval (Task (Some 1) 10) \<noteq> 0" by (simp add: Task_def)
  from periodic_task_first_run_and_spacing [OF init_demo i m k, of "[]" ?cs]
  obtain f w2 wa wb where
    a: "func (Task (Some 1) 10) = Some f" "sys_tick_ctr (sched ?w1) = 0"
      "run ?w1 = Inr w2" "calls_at 0 ?w1 w2 = [Invoke 0 f]"
      "do_calls [] ?w1 = Inr wa" "run wa = Inr wb"
    and b: "invoked 0 wa wb \<longrightarrow>
       (\<exists>wc wd. do_calls ?cs wb = Inr wc \<and> run wc = Inr wd \<and>
           (\<not> invoked 0 wb wc \<longrightarrow>
              calls_at 0 wc wd =
                (if interval (Task (Some 1) 10) \<le> sys_tick_ctr (sched wc) - sys_tick_ctr (sched wa)
                 then [Invoke 0 f] else [])))"
    by blast
  from a(1) have f: "f = 1" by (simp add: Task_def)
  from a(5) have wa: "wa = ?w1" by simp
  with a(3,6) have wb: "wb = w2" by simp
  from a(4) have "invoked 0 wa wb" by (simp add: invoked_def wa wb)
  with b obtain wc wd where
    c: "do_calls ?cs w2 = Inr wc" "run wc = Inr wd"
      "\<not> invoked 0 w2 wc \<longrightarrow>
         calls_at 0 wc wd =
           (if interval (Task (Some 1) 10) \<le> sys_tick_ctr (sched wc) - sys_tick_ctr (sched ?w1)
            then [Invoke 0 f] else [])"
    unfolding wa wb by blast
  from ev a(3) c(1) have n: "\<not> invoked 0 w2 wc" "sys_tick_ctr (sched wc) = 10" by simp_all
  with c(3) a(2) have "calls_at 0 wc wd = [Invoke 0 1]"
    by (simp add: Task_def f)
  with a(3,4) c(1,2) n f show ?thesis by blast
qed

section \<open>Counter wrap-around\<close>

lemma unat_of_nat_small:
  "e < 2 ^ 32 \<Longrightarrow> unat (of_nat e :: uint32) = e"
  by (simp add: unat_of_nat)

lemma word_le_of_nat:
  fixes k :: uint32
  assumes "e < 2 ^ 32"
  shows "k \<le> of_nat e \<longleftrightarrow> unat k \<le> e"
  using unat_of_nat_small [OF assms] by (simp add: word_le_nat_alt)

text \<open>Calls of the member functions advance the counter by the ticks they contain.\<close>

lemma do_calls_counter:
  assumes "stops_at w p m" and "do_calls cs w = Inr w'"
  shows "sys_tick_ctr (sched w') =
           sys_tick_ctr (sched w) + of_nat (ticked cs (systick_interval (sched w)))"
  using assms
proof (induction cs arbitrary: w)
  case Nil
  then show ?case by simp
next
  case (Cons c cs)
  from do_call_evolved [OF Cons.prems(1), of c] obtain w1 where
    w1: "do_call c w = Inr w1" "evolved p m w w1" by blast
  with Cons.prems have st: "stops_at w1 p m" and rest: "do_calls cs w1 = Inr w'"
    by (simp_all add: stops_at_evolved)
  note IH = Cons.IH [OF st rest]
  show ?case
  proof (cases c)
    case Tick
    with w1(1) have "sys_tick_ctr (sched w1) = sys_tick_ctr (sched w) + systick_interval (sched w)"
      "systick_interval (sched w1) = systick_interval (sched w)"
      by (auto simp: tick_def Let_def)
    with IH Tick show ?thesis by simp
  next
    case GetTickCount
    with w1(1) IH show ?thesis by auto
  next
    case (SetTickInterval s)
    with w1(1) have "sys_tick_ctr (sched w1) = sys_tick_ctr (sched w)"
      "systick_interval (sched w1) = s"
      by (auto simp: setTickInterval_def)
    with IH SetTickInterval show ?thesis by simp
  next
    case Run
    with w1(1) Cons.prems(1) have "sched w1 = sched w"
      by (auto simp: run_stops_at)
    with IH Run show ?thesis by simp
  qed
qed

text \<open>Calls other than \<^verbatim>\<open>run\<close> invoke nothing.\<close>

lemma do_calls_without_run:
  assumes "Run \<notin> set cs" and "do_calls cs w = Inr w'"
  shows "log w' = log w"
  using assms
proof (induction cs arbitrary: w)
  case Nil
  then show ?case by simp
next
  case (Cons c cs)
  then show ?case
    by (cases c) (auto simp: tick_def Let_def setTickInterval_def)
qed

lemma not_invoked_same_log: "log w' = log w \<Longrightarrow> \<not> invoked i w w'"
  by (simp add: invoked_def calls_at_def new_calls_def)

text \<open>
  C3. Let the loop of \<^verbatim>\<open>run\<close> reach a periodic task at position \<open>i\<close> whose last
  invocation was recorded \<open>e\<close> ticks ago (the counter stands at \<open>last_called + e\<close>;
  \<open>e = 0\<close> right after an invocation), wherever the counter stands, also just below
  its maximum. Let calls \<open>cs\<close> of the member functions follow whose \<^verbatim>\<open>tick\<close>s add up to
  \<open>ticked cs\<close>, the elapsed ticks \<open>e + ticked cs\<close> staying below \<open>2 ^ 32\<close>. Then no call
  faults, the counter has advanced by \<open>ticked cs\<close> modulo \<open>2 ^ 32\<close> (wrapping past the
  maximum where it must), and as long as the task was not invoked during \<open>cs\<close> (it is
  not when \<open>cs\<close> holds no \<^verbatim>\<open>run\<close>), the 32-bit difference of counter and \<open>last_called\<close>
  is the number of elapsed ticks, and the next dispatch cycle invokes the task (once,
  recording the counter) exactly if at least \<open>interval\<close> ticks have elapsed, and
  leaves it alone otherwise.
\<close>

theorem periodic_task_due_across_wraparound:
  assumes "stops_at w p m" and "i < m" and "mem w (p + i) = Some t" and "interval t \<noteq> 0"
    and "sys_tick_ctr (sched w) = last_called t + of_nat e"
    and "e + ticked cs (systick_interval (sched w)) < 2 ^ 32"
  shows "\<exists>f w1 w2. func t = Some f \<and> do_calls cs w = Inr w1 \<and>
           sys_tick_ctr (sched w1) =
             sys_tick_ctr (sched w) + of_nat (ticked cs (systick_interval (sched w))) \<and>
           (Run \<notin> set cs \<longrightarrow> \<not> invoked i w w1) \<and>
           run w1 = Inr w2 \<and>
           (\<not> invoked i w w1 \<longrightarrow>
              mem w1 (p + i) = Some t \<and>
              unat (sys_tick_ctr (sched w1) - last_called t) =
                e + ticked cs (systick_interval (sched w)) \<and>
              calls_at i w1 w2 =
                (if unat (interval t) \<le> e + ticked cs (systick_interval (sched w))
                 then [Invoke i f] else []) \<and>
              mem w2 (p + i) =
                Some (if unat (interval t) \<le> e + ticked cs (systick_interval (sched w))
                      then t\<lparr>last_called := sys_tick_ctr (sched w1)\<rparr> else t))"
proof -
  let ?T = "ticked cs (systick_interval (sched w))"
  from do_calls_position [OF assms(1-3), of cs] obtain w1 t1 where
    w1: "do_calls cs w = Inr w1" "stops_at w1 p m" "mem w1 (p + i) = Some t1"
      "\<not> invoked i w w1 \<longrightarrow> t1 = t"
    by blast
  let ?c1 = "sys_tick_ctr (sched w1)"
  have ctr: "?c1 = sys_tick_ctr (sched w) + of_nat ?T"
    using assms(1) w1(1) by (rule do_calls_counter)
  have norun: "Run \<notin> set cs \<longrightarrow> \<not> invoked i w w1"
  proof
    assume "Run \<notin> set cs"
    then have "log w1 = log w" using w1(1) by (rule do_calls_without_run)
    then show "\<not> invoked i w w1" by (rule not_invoked_same_log)
  qed
  from stops_atD [OF assms(1,2)] assms(3) obtain f where f: "func t = Some f"
    by (auto simp: callable_at_def)
  from run_position [OF w1(2) assms(2) w1(3)] obtain f1 w2 where
    w2: "func t1 = Some f1" "run w1 = Inr w2"
      "calls_at i w1 w2 = (if due ?c1 t1 then [Invoke i f1] else [])"
      "mem w2 (p + i) = Some (evaluated ?c1 t1)"
    by blast
  have later: "mem w1 (p + i) = Some t \<and>
      unat (?c1 - last_called t) = e + ?T \<and>
      calls_at i w1 w2 = (if unat (interval t) \<le> e + ?T then [Invoke i f] else []) \<and>
      mem w2 (p + i) =
        Some (if unat (interval t) \<le> e + ?T then t\<lparr>last_called := ?c1\<rparr> else t)"
    if "\<not> invoked i w w1"
  proof -
    from that w1(4) have t1: "t1 = t" by simp
    have diff: "?c1 - last_called t = of_nat (e + ?T)"
      by (simp add: ctr assms(5))
    have u: "unat (?c1 - last_called t) = e + ?T"
      unfolding diff using assms(6) by (rule unat_of_nat_small)
    have d: "interval t \<le> ?c1 - last_called t \<longleftrightarrow> unat (interval t) \<le> e + ?T"
      unfolding diff using assms(6) by (rule word_le_of_nat)
    from w1(3) w2 f assms(4) d u show ?thesis
      by (simp add: t1 due_periodic evaluated_periodic)
  qed
  from f w1(1) ctr norun w2(2) later show ?thesis by blast
qed


theorem periodic_task_due_across_wraparound_witness:
  "\<exists>w wa wb w1 w2.
      do_calls [Run, SetTickInterval 0xFFFFFFFB, Tick, Run, SetTickInterval 1]
        (after_init demo_world 100 2 1) = Inr w \<and>
      sys_tick_ctr (sched w) = 0xFFFFFFFB \<and>
      map_option last_called (mem w 100) = Some 0xFFFFFFFB \<and>
      do_calls [Tick, Tick, Tick, Tick, Run, Tick, Tick, Tick, Tick, Tick] w = Inr wa \<and>
      sys_tick_ctr (sched wa) = 4 \<and> run wa = Inr wb \<and> calls_at 0 wa wb = [] \<and>
      do_calls [Tick, Tick, Tick, Tick, Run, Tick, Tick, Tick, Tick, Tick, Run, Tick] w =
        Inr w1 \<and>
      sys_tick_ctr (sched w1) = 5 \<and> run w1 = Inr w2 \<and> calls_at 0 w1 w2 = [Invoke 0 1] \<and>
      map_option last_called (mem w2 100) = Some 5"
proof -
  let ?w0 = "after_init demo_world 100 2 1"
  let ?pre = "[Run, SetTickInterval 0xFFFFFFFB, Tick, Run, SetTickInterval 1]"
  let ?cs9 = "[Tick, Tick, Tick, Tick, Run, Tick, Tick, Tick, Tick, Tick]"
  let ?cs10 = "[Tick, Tick, Tick, Tick, Run, Tick, Tick, Tick, Tick, Tick, Run, Tick]"
  have ev: "case do_calls ?pre ?w0 of
              Inl x \<Rightarrow> False
            | Inr w \<Rightarrow>
                sys_tick_ctr (sched w) = 0xFFFFFFFB \<and> systick_interval (sched w) = 1 \<and>
                map_option last_called (mem w 100) = Some 0xFFFFFFFB \<and>
                (case do_calls ?cs9 w of Inl x \<Rightarrow> False | Inr wa \<Rightarrow> \<not> invoked 0 w wa) \<and>
                (case do_calls ?cs10 w of Inl x \<Rightarrow> False | Inr w1 \<Rightarrow> \<not> invoked 0 w w1)"
    by code_simp
  have i: "(0::nat) < 2" by simp
  from do_calls_position [OF stops_at_demo i mem_demo_after_init(1), of ?pre]
  obtain w t where w: "do_calls ?pre ?w0 = Inr w" "stops_at w 100 2"
    "mem w (100 + 0) = Some t" "func t = Some 1" "interval t = 10"
    by auto
  from ev w(1) have c: "sys_tick_ctr (sched w) = 0xFFFFFFFB" "systick_interval (sched w) = 1"
    and l: "map_option last_called (mem w 100) = Some 0xFFFFFFFB"
    and n9: "case do_calls ?cs9 w of Inl x \<Rightarrow> False | Inr wa \<Rightarrow> \<not> invoked 0 w wa"
    and n10: "case do_calls ?cs10 w of Inl x \<Rightarrow> False | Inr w1 \<Rightarrow> \<not> invoked 0 w w1"
    by simp_all
  from l w(3) have lc: "last_called t = 0xFFFFFFFB" by simp
  have k: "interval t \<noteq> 0" by (simp add: w(5))
  have e: "sys_tick_ctr (sched w) = last_called t + of_nat 0" by (simp add: c lc)
  have t9: "ticked ?cs9 (systick_interval (sched w)) = 9"
    and t10: "ticked ?cs10 (systick_interval (sched w)) = 10"
    by (simp_all add: c)
  have r9: "0 + ticked ?cs9 (systick_interval (sched w)) < 2 ^ 32"
    and r10: "0 + ticked ?cs10 (systick_interval (sched w)) < 2 ^ 32"
    by (simp_all only: t9 t10) simp_all
  from periodic_task_due_across_wraparound [OF w(2) i w(3) k e r9]
  obtain wa wb where a: "do_calls ?cs9 w = Inr wa"
    "sys_tick_ctr (sched wa) = sys_tick_ctr (sched w) + of_nat (ticked ?cs9 (systick_interval (sched w)))"
    "run wa = Inr wb"
    "\<not> invoked 0 w wa \<longrightarrow>
       calls_at 0 wa wb =
         (if unat (interval t) \<le> 0 + ticked ?cs9 (systick_interval (sched w))
          then [Invoke 0 1] else [])"
    by (auto simp: w(4))
  from n9 a(1) have "\<not> invoked 0 w wa" by simp
  with a(4) [unfolded t9] have a4: "calls_at 0 wa wb = []" by (simp add: w(5))
  from a(2) [unfolded t9] have a2: "sys_tick_ctr (sched wa) = 4" by (simp add: c)
  from periodic_task_due_across_wraparound [OF w(2) i w(3) k e r10]
  obtain w1 w2 where b: "do_calls ?cs10 w = Inr w1"
    "sys_tick_ctr (sched w1) = sys_tick_ctr (sched w) + of_nat (ticked ?cs10 (systick_interval (sched w)))"
    "run w1 = Inr w2"
    "\<not> invoked 0 w w1 \<longrightarrow>
       calls_at 0 w1 w2 =
         (if unat (interval t) \<le> 0 + ticked ?cs10 (systick_interval (sched w))
          then [Invoke 0 1] else []) \<and>
       mem w2 (100 + 0) =
         Some (if unat (interval t) \<le> 0 + ticked ?cs10 (systick_interval (sched w))
               then t\<lparr>last_called := sys_tick_ctr (sched w1)\<rparr> else t)"
    by (auto simp: w(4))
  from b(2) [unfolded t10] have b2: "sys_tick_ctr (sched w1) = 5" by (simp add: c)
  from n10 b(1) have "\<not> invoked 0 w w1" by simp
  with b(4) [unfolded t10] have b4: "calls_at 0 w1 w2 = [Invoke 0 1]"
    "map_option last_called (mem w2 100) = Some 5"
    by (simp_all add: w(5) b2)
  from w(1) c(1) l a(1) a2 a(3) a4 b(1) b2 b(3) b4 show ?thesis by blast
qed

end
